theory Spec2Isabelle
  imports Complex_Main "HOL-Library.Sublist" "HOL-Library.AList"
begin

section \<open>The guess evaluator and the scorer of server.js\<close>

text \<open>
  Strings are lists of 8-bit characters, read as the code points 0 to 255. Numbers that the
  server computes with (similarities, seconds) are modelled as exact reals; the values
  returned by \<^verbatim>\<open>Math.round\<close> are integers.
\<close>

subsection \<open>normalize\<close>

text \<open>
  \<^verbatim>\<open>str.toLowerCase()\<close>: on the code points 0 to 255 the upper-case letters are A to Z and
  the Latin-1 range 192 to 222 without the multiplication sign 215; each is moved up by 32.
\<close>

definition toLowerCase_char :: "char \<Rightarrow> char" where
  "toLowerCase_char c =
     (let n = (of_char c :: nat)
      in if (65 \<le> n \<and> n \<le> 90) \<or> (192 \<le> n \<and> n \<le> 222 \<and> n \<noteq> 215)
         then char_of (n + 32) else c)"

definition toLowerCase :: "string \<Rightarrow> string" where
  "toLowerCase s = map toLowerCase_char s"

text \<open>The character class \<^verbatim>\<open>[a-z0-9 ]\<close> and \<^verbatim>\<open>.replace(/[^a-z0-9 ]/g, '')\<close>.\<close>

definition lower_alnum_space :: "char \<Rightarrow> bool" where
  "lower_alnum_space c \<longleftrightarrow> c \<in> set ''abcdefghijklmnopqrstuvwxyz0123456789 ''"

definition strip_symbols :: "string \<Rightarrow> string" where
  "strip_symbols s = filter lower_alnum_space s"

text \<open>The class \<^verbatim>\<open>\w\<close> of the regular expressions, which decides where \<^verbatim>\<open>\b\<close> holds.\<close>

definition word_char :: "char \<Rightarrow> bool" where
  "word_char c \<longleftrightarrow>
     c \<in> set ''abcdefghijklmnopqrstuvwxyzABCDEFGHIJKLMNOPQRSTUVWXYZ0123456789_''"

text \<open>
  \<^verbatim>\<open>\b\<close> between a previous character (\<open>pw\<close> tells whether it was a word character; at
  the start of the string there is none) and the rest of the string.
\<close>

definition word_boundary :: "bool \<Rightarrow> string \<Rightarrow> bool" where
  "word_boundary pw s \<longleftrightarrow> pw \<noteq> (case s of [] \<Rightarrow> False | c # _ \<Rightarrow> word_char c)"

text \<open>
  The group \<^verbatim>\<open>(the|a|an)\b\<close> at the start of \<open>s\<close>: the alternatives are tried in the order
  they are written, and one is taken only if \<^verbatim>\<open>\b\<close> holds after it. The result is what
  follows the match.
\<close>

fun match_alt :: "string list \<Rightarrow> string \<Rightarrow> string option" where
  "match_alt [] s = None"
| "match_alt (p # ps) s =
     (if prefix p s \<and> word_boundary (word_char (last p)) (drop (length p) s)
      then Some (drop (length p) s)
      else match_alt ps s)"

definition articles :: "string list" where
  "articles = [''the'', ''a'', ''an'']"

text \<open>
  \<^verbatim>\<open>.replace(/\b(the|a|an)\b/g, '')\<close>: the string is scanned from the left; where the
  expression matches, the match is dropped and the scan goes on behind it; elsewhere the
  character is kept.
\<close>

function remove_articles :: "bool \<Rightarrow> string \<Rightarrow> string" where
  "remove_articles pw [] = []"
| "remove_articles pw (c # cs) =
     (case (if word_boundary pw (c # cs) then match_alt articles (c # cs) else None) of
        Some rest \<Rightarrow> remove_articles True rest
      | None \<Rightarrow> c # remove_articles (word_char c) cs)"
  by pat_completeness auto
termination
  by (relation "measure (\<lambda>(pw, s). length s)")
     (auto simp: articles_def split: if_splits)

text \<open>
  The class \<^verbatim>\<open>\s\<close> on the code points 0 to 255: tab, line feed, vertical tab, form feed,
  carriage return, space and the no-break space. \<^verbatim>\<open>trim\<close> removes the same characters.
\<close>

definition white_space :: "char \<Rightarrow> bool" where
  "white_space c \<longleftrightarrow> (of_char c :: nat) \<in> {9, 10, 11, 12, 13, 32, 160}"

text \<open>\<^verbatim>\<open>.replace(/\s+/g, ' ')\<close>: every maximal run of white space becomes one space.\<close>

function collapse_ws :: "string \<Rightarrow> string" where
  "collapse_ws [] = []"
| "collapse_ws (c # cs) =
     (if white_space c then CHR '' '' # collapse_ws (dropWhile white_space cs)
      else c # collapse_ws cs)"
  by pat_completeness auto
termination
  by (relation "measure length") (auto simp: length_dropWhile_le less_Suc_eq_le)

definition trim :: "string \<Rightarrow> string" where
  "trim s = rev (dropWhile white_space (rev (dropWhile white_space s)))"

definition normalize :: "string \<Rightarrow> string" where
  "normalize str =
     trim (collapse_ws (remove_articles False (strip_symbols (toLowerCase str))))"

subsection \<open>levenshtein\<close>

text \<open>
  The table \<open>dp\<close> has \<open>m + 1\<close> rows of \<open>n + 1\<close> zeros; the first two loops write the first
  column and the first row, the nested loops fill the rest row by row. Every index the
  loops use is inside the table.
\<close>

definition lev_cell :: "string \<Rightarrow> string \<Rightarrow> nat \<Rightarrow> nat \<Rightarrow> nat list list \<Rightarrow> nat list list" where
  "lev_cell a b i j dp =
     dp[i := (dp ! i)[j :=
        (if a ! (i - 1) = b ! (j - 1)
         then dp ! (i - 1) ! (j - 1)
         else 1 + min (dp ! (i - 1) ! j) (min (dp ! i ! (j - 1)) (dp ! (i - 1) ! (j - 1))))]]"

definition lev_row :: "string \<Rightarrow> string \<Rightarrow> nat \<Rightarrow> nat list list \<Rightarrow> nat list list" where
  "lev_row a b i dp = fold (lev_cell a b i) [1..<length b + 1] dp"

definition levenshtein :: "string \<Rightarrow> string \<Rightarrow> nat" where
  "levenshtein a b =
     (let m = length a; n = length b;
          dp0 = replicate (m + 1) (replicate (n + 1) (0::nat));
          dp1 = fold (\<lambda>i dp. dp[i := (dp ! i)[0 := i]]) [0..<m + 1] dp0;
          dp2 = fold (\<lambda>j dp. dp[0 := (dp ! 0)[j := j]]) [0..<n + 1] dp1;
          dp3 = fold (lev_row a b) [1..<m + 1] dp2
      in dp3 ! m ! n)"

subsection \<open>checkGuess\<close>

datatype match = Correct | Partial | Wrong

record guess_result =
  match :: match
  similarity :: real

text \<open>\<^verbatim>\<open>s.includes(t)\<close>: \<open>t\<close> starts at some position of \<open>s\<close>.\<close>

primrec includes_str :: "string \<Rightarrow> string \<Rightarrow> bool" where
  "includes_str [] t \<longleftrightarrow> t = []"
| "includes_str (c # cs) t \<longleftrightarrow> prefix t (c # cs) \<or> includes_str cs t"

definition checkGuess :: "string \<Rightarrow> string \<Rightarrow> guess_result" where
  "checkGuess guess answer =
     (let g = normalize guess; a = normalize answer
      in if g = [] then \<lparr>match = Wrong, similarity = 0\<rparr>
         else if g = a then \<lparr>match = Correct, similarity = 1\<rparr>
         else
           let dist = levenshtein g a;
               maxLen = max (length g) (length a);
               sim = 1 - real dist / real maxLen;
               threshold = (if length a \<le> 6 then 2 else 3)
           in if dist \<le> threshold then \<lparr>match = Correct, similarity = sim\<rparr>
              else if includes_str g a \<or> includes_str a g
                then \<lparr>match = Correct, similarity = 9 / 10\<rparr>
              else if sim \<ge> 6 / 10 then \<lparr>match = Partial, similarity = sim\<rparr>
              else \<lparr>match = Wrong, similarity = sim\<rparr>)"

subsection \<open>calcScore\<close>

text \<open>
  \<^verbatim>\<open>Math.round\<close> rounds to the nearest integer and a tie towards plus infinity.
  \<open>calcScore\<close> is called with \<open>totalTime = room.timePerRound\<close>, which is never zero.
\<close>

definition Math_round :: "real \<Rightarrow> int" where
  "Math_round x = \<lfloor>x + 1 / 2\<rfloor>"

definition calcScore :: "real \<Rightarrow> real \<Rightarrow> match \<Rightarrow> real \<Rightarrow> int" where
  "calcScore timeRemaining totalTime matchType sim =
     (let timeRatio = timeRemaining / totalTime;
          base = max (Math_round (1000 * timeRatio)) 50
      in if matchType = Partial then Math_round (real_of_int base * (1 / 2) * sim)
         else base)"

section \<open>Reference definitions for the guess evaluator\<close>

text \<open>
  The edit distance of the specification, by the textbook recursion on the two strings;
  \<open>single_edit\<close> is one insertion, deletion or substitution of a character anywhere in a
  string, and \<open>edit_step\<close> the same relation given by rules (used in the proofs).
\<close>

fun edit_distance :: "'a list \<Rightarrow> 'a list \<Rightarrow> nat" where
  "edit_distance [] ys = length ys"
| "edit_distance xs [] = length xs"
| "edit_distance (x # xs) (y # ys) =
     (if x = y then edit_distance xs ys
      else 1 + min (edit_distance xs (y # ys))
                   (min (edit_distance (x # xs) ys) (edit_distance xs ys)))"

definition single_edit :: "'a list \<Rightarrow> 'a list \<Rightarrow> bool" where
  "single_edit xs ys \<longleftrightarrow>
     (\<exists>u v c. xs = u @ v \<and> ys = u @ c # v) \<or>
     (\<exists>u v c. xs = u @ c # v \<and> ys = u @ v) \<or>
     (\<exists>u v c d. xs = u @ c # v \<and> ys = u @ d # v)"

inductive edit_step :: "'a list \<Rightarrow> 'a list \<Rightarrow> bool" where
  ins: "edit_step ys (c # ys)"
| del: "edit_step (c # ys) ys"
| sub: "edit_step (c # ys) (d # ys)"
| cong: "edit_step ys zs \<Longrightarrow> edit_step (c # ys) (c # zs)"

text \<open>
  What the cell \<open>dp[r][c]\<close> of \<open>levenshtein\<close> has to hold, and the table invariant:
  the shape of the table and the right value in every cell that \<open>P\<close> marks as written.
\<close>

definition lev_entry :: "string \<Rightarrow> string \<Rightarrow> nat \<Rightarrow> nat \<Rightarrow> nat" where
  "lev_entry a b r c = edit_distance (rev (take r a)) (rev (take c b))"

definition lev_table_ok :: "string \<Rightarrow> string \<Rightarrow> (nat \<Rightarrow> nat \<Rightarrow> bool) \<Rightarrow> nat list list \<Rightarrow> bool" where
  "lev_table_ok a b P dp \<longleftrightarrow>
     length dp = length a + 1 \<and>
     (\<forall>r \<le> length a. length (dp ! r) = length b + 1) \<and>
     (\<forall>r \<le> length a. \<forall>c \<le> length b. P r c \<longrightarrow> dp ! r ! c = lev_entry a b r c)"

text \<open>
  Normalization as the specification words it: the words of the lower-cased, stripped
  string (maximal runs without white space), without the articles, joined by single spaces.
\<close>

function words_of :: "string \<Rightarrow> string list" where
  "words_of [] = []"
| "words_of (c # cs) =
     (if white_space c then words_of cs
      else (c # takeWhile (\<lambda>d. \<not> white_space d) cs)
             # words_of (dropWhile (\<lambda>d. \<not> white_space d) cs))"
  by pat_completeness auto
termination
  by (relation "measure length") (auto simp: length_dropWhile_le less_Suc_eq_le)

fun unwords :: "string list \<Rightarrow> string" where
  "unwords [] = []"
| "unwords [w] = w"
| "unwords (w # v # ws) = w @ CHR '' '' # unwords (v # ws)"

definition normalize_spec :: "string \<Rightarrow> string" where
  "normalize_spec s =
     unwords (filter (\<lambda>w. w \<notin> set articles) (words_of (strip_symbols (toLowerCase s))))"

text \<open>The six classification steps of the specification, first match wins.\<close>

definition classify_reference :: "string \<Rightarrow> string \<Rightarrow> guess_result" where
  "classify_reference g a =
     (if g = [] then \<lparr>match = Wrong, similarity = 0\<rparr>
      else if g = a then \<lparr>match = Correct, similarity = 1\<rparr>
      else if edit_distance g a \<le> (if length a \<le> 6 then 2 else 3)
        then \<lparr>match = Correct,
              similarity = 1 - real (edit_distance g a) / real (max (length g) (length a))\<rparr>
      else if sublist a g \<or> sublist g a then \<lparr>match = Correct, similarity = 9 / 10\<rparr>
      else if 1 - real (edit_distance g a) / real (max (length g) (length a)) \<ge> 6 / 10
        then \<lparr>match = Partial,
              similarity = 1 - real (edit_distance g a) / real (max (length g) (length a))\<rparr>
      else \<lparr>match = Wrong,
            similarity = 1 - real (edit_distance g a) / real (max (length g) (length a))\<rparr>)"

section \<open>The rooms, the sockets and the timers of server.js\<close>

text \<open>
  The process state is the registry \<^verbatim>\<open>rooms\<close> (a Map from room codes to room objects), the
  room objects themselves, the socket objects and the pending timeouts of the event loop.
  Timer callbacks close over a room object, not over its code, so room objects live in a
  store of their own and the registry holds references. \<^verbatim>\<open>Date.now()\<close> is an argument
  \<open>now\<close> (milliseconds) of every handler; the values of \<^verbatim>\<open>uuidv4()\<close> and \<^verbatim>\<open>Math.random()\<close>
  are arguments too. An uncaught \<^verbatim>\<open>TypeError\<close> (a property read on \<^verbatim>\<open>undefined\<close>) ends the
  process: the handler returns \<open>None\<close>.
\<close>

datatype room_state = Setup | Lobby | Playing | Finished

text \<open>
  A puzzle as the upload handler stores it: the image data URL, the answer and the two
  hint strings made by \<^verbatim>\<open>generateHints\<close> (whose text no handler inspects).
\<close>

record puzzle =
  image_url :: string
  answer :: string
  hint1 :: string
  hint2 :: string

record player =
  p_id :: string
  socketId :: "string option"
  p_name :: string
  score :: int
  online :: bool
  guessedThisRound :: bool

record room =
  code :: string
  hostId :: "string option"
  hostSessionId :: "string option"
  puzzles :: "puzzle list"
  players :: "(string \<times> player) list"
  sessions :: "string \<rightharpoonup> string"
  state :: room_state
  currentRound :: nat
  totalRounds :: int
  timePerRound :: real
  roundTimer :: "nat option"
  hintTimers :: "nat list"
  roundStartTime :: "real option"
  roundAnswered :: "string set"

text \<open>The fields the handlers hang on a socket object.\<close>

record socket =
  s_roomCode :: "string option"
  s_playerId :: "string option"
  s_sessionId :: "string option"
  s_isHost :: bool

text \<open>What a scheduled callback does, with the room object it closes over.\<close>

datatype callback =
    HintCb nat nat string
  | RoundEndCb nat
  | AdvanceCb nat
  | EndGameCb nat
  | ReapCb string

record timer =
  due :: real
  callback :: callback

record sched =
  pending :: "nat \<rightharpoonup> timer"
  nextTimer :: nat

record world =
  rooms :: "string \<rightharpoonup> nat"
  heap :: "nat \<rightharpoonup> room"
  nextRef :: nat
  sockets :: "string \<Rightarrow> socket"
  sched :: sched

subsection \<open>Emitted events\<close>

record lb_entry =
  lb_id :: string
  lb_name :: string
  lb_score :: int
  lb_online :: bool
  lb_guessed :: bool

datatype payload =
    ErrorMsg string
  | HostJoined string nat
  | Joined string string string "string option" room_state int bool
  | NewRound nat int string real "real option"
  | AlreadyAnswered
  | LeaderboardUpdate "lb_entry list"
  | PlayerJoined string nat "(string \<times> bool) list"
  | PlayerLeft string nat "(string \<times> bool) list"
  | GuessResultWrong string
  | GuessResult match int int "string option"
  | PlayerGuessed string match
  | HostPromoted
  | Hint nat string
  | RoundEnd string nat int "lb_entry list" bool
  | GameOver "lb_entry list"
  | RoomCreated string
  | UploadDone nat
  | NotFound

datatype target = ToSocket string | ToRoom string | ToHttp

type_synonym event = "target \<times> payload"

subsection \<open>Helpers\<close>

text \<open>
  \<^verbatim>\<open>generateRoomCode\<close>: six characters, each \<^verbatim>\<open>chars[Math.floor(Math.random() * 32)]\<close>;
  the argument is the list of the six values of \<^verbatim>\<open>Math.random()\<close>.
\<close>

definition chars :: string where
  "chars = ''ABCDEFGHJKLMNPQRSTUVWXYZ23456789''"

definition generateRoomCode :: "real list \<Rightarrow> string" where
  "generateRoomCode rs = map (\<lambda>r. chars ! nat \<lfloor>r * real (length chars)\<rfloor>) rs"

text \<open>
  \<^verbatim>\<open>roomCode.toUpperCase()\<close> on the code points 0 to 255: a to z and 224 to 254 (without
  the division sign 247) move down by 32 and the sharp s (223) becomes SS. The upper-case
  forms of 181 and 255 lie outside the range; they are left as they are, which like every
  character above 127 matches no room code.
\<close>

definition toUpperCase_char :: "char \<Rightarrow> string" where
  "toUpperCase_char c =
     (let n = (of_char c :: nat)
      in if (97 \<le> n \<and> n \<le> 122) \<or> (224 \<le> n \<and> n \<le> 254 \<and> n \<noteq> 247)
         then [char_of (n - 32)]
         else if n = 223 then ''SS'' else [c])"

definition toUpperCase :: "string \<Rightarrow> string" where
  "toUpperCase s = concat (map toUpperCase_char s)"

text \<open>\<^verbatim>\<open>Object.values(room.players)\<close>, in the order the players were added.\<close>

definition player_values :: "room \<Rightarrow> player list" where
  "player_values room = map snd (players room)"

definition onlineCount :: "room \<Rightarrow> nat" where
  "onlineCount room = length (filter online (player_values room))"

definition name_online_list :: "room \<Rightarrow> (string \<times> bool) list" where
  "name_online_list room = map (\<lambda>p. (p_name p, online p)) (player_values room)"

text \<open>\<^verbatim>\<open>getLeaderboard\<close>: the stable sort by descending score.\<close>

definition getLeaderboard :: "room \<Rightarrow> lb_entry list" where
  "getLeaderboard room =
     sort_key (\<lambda>e. - lb_score e)
       (map (\<lambda>p. \<lparr>lb_id = p_id p, lb_name = p_name p, lb_score = score p,
                   lb_online = online p, lb_guessed = guessedThisRound p\<rparr>)
            (player_values room))"

text \<open>
  \<^verbatim>\<open>setTimeout\<close> and \<^verbatim>\<open>clearTimeout\<close>. Node truncates the delay to an integer and uses 1 ms
  for a delay below 1 or above \<open>2^31 - 1\<close>. Timer handles are never reused.
\<close>

definition timer_delay :: "real \<Rightarrow> real" where
  "timer_delay d = (if d < 1 \<or> d > 2147483647 then 1 else real_of_int \<lfloor>d\<rfloor>)"

definition setTimeout :: "callback \<Rightarrow> real \<Rightarrow> real \<Rightarrow> sched \<Rightarrow> nat \<times> sched" where
  "setTimeout cb delay now s =
     (nextTimer s,
      s\<lparr>pending := (pending s)(nextTimer s \<mapsto> \<lparr>due = now + timer_delay delay, callback = cb\<rparr>),
        nextTimer := Suc (nextTimer s)\<rparr>)"

definition clearTimeout :: "nat \<Rightarrow> sched \<Rightarrow> sched" where
  "clearTimeout t s = s\<lparr>pending := (pending s)(t := None)\<rparr>"

definition clearTimers :: "room \<Rightarrow> sched \<Rightarrow> room \<times> sched" where
  "clearTimers room s =
     (let s1 = (case roundTimer room of Some t \<Rightarrow> clearTimeout t s | None \<Rightarrow> s);
          s2 = fold clearTimeout (hintTimers room) s1
      in (room\<lparr>roundTimer := None, hintTimers := []\<rparr>, s2))"

subsection \<open>Game flow: startRound, endRound, endGame\<close>

definition startRound :: "nat \<Rightarrow> real \<Rightarrow> room \<Rightarrow> sched \<Rightarrow> (room \<times> sched \<times> event list) option" where
  "startRound ref now room s =
     (let room1 = room\<lparr>roundStartTime := Some now, roundAnswered := {},
                       players := map (\<lambda>(k, p). (k, p\<lparr>guessedThisRound := False\<rparr>)) (players room)\<rparr>;
          (room2, s2) = clearTimers room1 s
      in if currentRound room < length (puzzles room) then
           let puzzle = puzzles room ! currentRound room;
               evs = [(ToRoom (code room),
                        NewRound (currentRound room + 1) (totalRounds room) (image_url puzzle)
                          (timePerRound room) None),
                      (ToRoom (code room), LeaderboardUpdate (getLeaderboard room2))];
               (h1, s3) = setTimeout (HintCb ref 1 (hint1 puzzle)) (timePerRound room * 500) now s2;
               (h2, s4) = setTimeout (HintCb ref 2 (hint2 puzzle)) (timePerRound room * 750) now s3;
               (rt, s5) = setTimeout (RoundEndCb ref) (timePerRound room * 1000) now s4
           in Some (room2\<lparr>hintTimers := [h1, h2], roundTimer := Some rt\<rparr>, s5, evs)
         else None)"

definition endRound :: "nat \<Rightarrow> real \<Rightarrow> room \<Rightarrow> sched \<Rightarrow> (room \<times> sched \<times> event list) option" where
  "endRound ref now room s =
     (let (room1, s1) = clearTimers room s
      in if currentRound room < length (puzzles room) then
           let puzzle = puzzles room ! currentRound room;
               ev = (ToRoom (code room),
                      RoundEnd (answer puzzle) (currentRound room + 1) (totalRounds room)
                        (getLeaderboard room1)
                        (int (currentRound room) \<ge> totalRounds room - 1));
               (t, s2) = (if int (currentRound room) < totalRounds room - 1
                          then setTimeout (AdvanceCb ref) 5000 now s1
                          else setTimeout (EndGameCb ref) 3000 now s1)
           in Some (room1\<lparr>roundTimer := Some t\<rparr>, s2, [ev])
         else None)"

definition endGame :: "room \<Rightarrow> sched \<Rightarrow> room \<times> sched \<times> event list" where
  "endGame room s =
     (let (room1, s1) = clearTimers room s;
          room2 = room1\<lparr>state := Finished\<rparr>
      in (room2, s1, [(ToRoom (code room), GameOver (getLeaderboard room2))]))"

subsection \<open>The handlers\<close>

definition get_room :: "world \<Rightarrow> string \<Rightarrow> (nat \<times> room) option" where
  "get_room w roomCode =
     (case rooms w roomCode of None \<Rightarrow> None
      | Some ref \<Rightarrow> (case heap w ref of None \<Rightarrow> None | Some room \<Rightarrow> Some (ref, room)))"

definition put_room :: "nat \<Rightarrow> room \<Rightarrow> world \<Rightarrow> world" where
  "put_room ref room w = w\<lparr>heap := (heap w)(ref \<mapsto> room)\<rparr>"

definition new_room :: "string \<Rightarrow> room" where
  "new_room roomCode =
     \<lparr>code = roomCode, hostId = None, hostSessionId = None, puzzles = [], players = [],
      sessions = Map.empty, state = Setup, currentRound = 0, totalRounds = 0,
      timePerRound = 30, roundTimer = None, hintTimers = [], roundStartTime = None,
      roundAnswered = {}\<rparr>"

text \<open>\<^verbatim>\<open>POST /api/create-room\<close>: \<^verbatim>\<open>rooms.set(roomCode, {...})\<close> with a new room object.\<close>

definition create_room :: "real list \<Rightarrow> world \<Rightarrow> world \<times> event list" where
  "create_room rs w =
     (let roomCode = generateRoomCode rs
      in (w\<lparr>rooms := (rooms w)(roomCode \<mapsto> nextRef w),
            heap := (heap w)(nextRef w \<mapsto> new_room roomCode),
            nextRef := Suc (nextRef w)\<rparr>,
          [(ToHttp, RoomCreated roomCode)]))"

text \<open>\<^verbatim>\<open>POST /api/upload/:roomCode\<close>, with the puzzles the handler has built from the files.\<close>

definition upload :: "string \<Rightarrow> puzzle list \<Rightarrow> world \<Rightarrow> world \<times> event list" where
  "upload roomCode pz w =
     (case get_room w roomCode of
        None \<Rightarrow> (w, [(ToHttp, NotFound)])
      | Some (ref, room) \<Rightarrow>
          (put_room ref (room\<lparr>puzzles := pz, totalRounds := int (length pz), state := Lobby\<rparr>) w,
           [(ToHttp, UploadDone (length pz))]))"

definition host_join :: "string \<Rightarrow> string \<Rightarrow> string option \<Rightarrow> world \<Rightarrow> world \<times> event list" where
  "host_join sid roomCode sessionId w =
     (case get_room w roomCode of
        None \<Rightarrow> (w, [(ToSocket sid, ErrorMsg ''Room not found'')])
      | Some (ref, room) \<Rightarrow>
          ((put_room ref (room\<lparr>hostId := Some sid, hostSessionId := sessionId\<rparr>) w)
             \<lparr>sockets := (sockets w)(sid := (sockets w sid)\<lparr>s_roomCode := Some roomCode,
                                                           s_isHost := True\<rparr>)\<rparr>,
           [(ToSocket sid, HostJoined roomCode (length (puzzles room)))]))"

text \<open>
  The test \<^verbatim>\<open>sessionId && room.sessions[sessionId]\<close> followed by \<^verbatim>\<open>if (existingPlayer)\<close>:
  the token is present and not empty, it is mapped to a player id, and that player exists.
\<close>

definition session_player :: "room \<Rightarrow> string option \<Rightarrow> (string \<times> player) option" where
  "session_player room sessionId =
     (case sessionId of None \<Rightarrow> None
      | Some sess \<Rightarrow>
          if sess = [] then None
          else (case sessions room sess of None \<Rightarrow> None
                | Some playerId \<Rightarrow>
                    if playerId = [] then None
                    else (case map_of (players room) playerId of None \<Rightarrow> None
                          | Some p \<Rightarrow> Some (playerId, p))))"

definition remaining_time :: "real \<Rightarrow> room \<Rightarrow> real" where
  "remaining_time now room =
     (let elapsed = (now - (case roundStartTime room of None \<Rightarrow> 0 | Some t \<Rightarrow> t)) / 1000
      in max 0 (timePerRound room - elapsed))"

definition join_room ::
  "real \<Rightarrow> string \<Rightarrow> string \<Rightarrow> string \<Rightarrow> string option \<Rightarrow> string \<Rightarrow> string \<Rightarrow> world
     \<Rightarrow> (world \<times> event list) option" where
  "join_room now sid roomCode0 playerName sessionId uuidPlayer uuidSession w =
     (let roomCode = toUpperCase roomCode0
      in case get_room w roomCode of
           None \<Rightarrow> Some (w, [(ToSocket sid, ErrorMsg ''Room not found'')])
         | Some (ref, room) \<Rightarrow>
             if state room = Setup
             then Some (w, [(ToSocket sid, ErrorMsg ''Room is not ready yet'')])
             else (case session_player room sessionId of
                Some (playerId, existingPlayer) \<Rightarrow>
                  let p1 = existingPlayer\<lparr>socketId := Some sid, online := True,
                             p_name := (if playerName = [] then p_name existingPlayer
                                        else playerName)\<rparr>;
                      room1 = room\<lparr>players := AList.update playerId p1 (players room)\<rparr>;
                      w1 = (put_room ref room1 w)
                             \<lparr>sockets := (sockets w)(sid := (sockets w sid)
                                 \<lparr>s_roomCode := Some roomCode, s_playerId := Some playerId,
                                  s_sessionId := sessionId\<rparr>)\<rparr>;
                      joined = [(ToSocket sid,
                                  Joined playerId roomCode (p_name p1) None (state room)
                                    (score p1) True)];
                      tail_evs = [(ToRoom roomCode, LeaderboardUpdate (getLeaderboard room1)),
                                  (ToRoom roomCode,
                                    PlayerJoined (p_name p1) (onlineCount room1)
                                      (name_online_list room1))]
                  in if state room = Playing then
                       (if currentRound room < length (puzzles room) then
                          let puzzle = puzzles room ! currentRound room;
                              replay = [(ToSocket sid,
                                          NewRound (currentRound room + 1) (totalRounds room)
                                            (image_url puzzle) (timePerRound room)
                                            (Some (remaining_time now room)))]
                                       @ (if playerId \<in> roundAnswered room
                                          then [(ToSocket sid, AlreadyAnswered)] else [])
                          in Some (w1, joined @ replay @ tail_evs)
                        else None)
                     else Some (w1, joined @ tail_evs)
              | None \<Rightarrow>
                  let playerId = uuidPlayer;
                      newSessionId = (case sessionId of None \<Rightarrow> uuidSession
                                      | Some sess \<Rightarrow> if sess = [] then uuidSession else sess);
                      p1 = \<lparr>p_id = playerId, socketId = Some sid, p_name = playerName,
                            score = 0, online = True, guessedThisRound = False\<rparr>;
                      room1 = room\<lparr>players := AList.update playerId p1 (players room),
                                   sessions := (sessions room)(newSessionId \<mapsto> playerId)\<rparr>;
                      w1 = (put_room ref room1 w)
                             \<lparr>sockets := (sockets w)(sid := (sockets w sid)
                                 \<lparr>s_roomCode := Some roomCode, s_playerId := Some playerId,
                                  s_sessionId := Some newSessionId\<rparr>)\<rparr>
                  in Some (w1,
                       [(ToSocket sid,
                          Joined playerId roomCode playerName (Some newSessionId) (state room) 0 False),
                        (ToRoom roomCode, LeaderboardUpdate (getLeaderboard room1)),
                        (ToRoom roomCode,
                          PlayerJoined playerName (onlineCount room1) (name_online_list room1))])))"

definition start_game ::
  "real \<Rightarrow> string \<Rightarrow> string \<Rightarrow> int \<Rightarrow> real \<Rightarrow> world \<Rightarrow> (world \<times> event list) option" where
  "start_game now sid roomCode rounds tpr w =
     (case get_room w roomCode of
        None \<Rightarrow> Some (w, [])
      | Some (ref, room) \<Rightarrow>
          if Some sid \<noteq> hostId room then Some (w, [])
          else
            let len = int (length (puzzles room));
                room1 = room\<lparr>totalRounds := min (if rounds = 0 then len else rounds) len,
                             timePerRound := (if tpr = 0 then 30 else tpr),
                             currentRound := 0, state := Playing,
                             players := map (\<lambda>(k, p). (k, p\<lparr>score := 0, guessedThisRound := False\<rparr>))
                                          (players room)\<rparr>
            in (case startRound ref now room1 (sched w) of
                  None \<Rightarrow> None
                | Some (room2, s2, evs) \<Rightarrow> Some ((put_room ref room2 w)\<lparr>sched := s2\<rparr>, evs)))"

text \<open>
  Lines 309 to 311 of the \<^verbatim>\<open>submit-guess\<close> handler: the points are added, the player is
  flagged and recorded in \<^verbatim>\<open>roundAnswered\<close>.
\<close>

definition scored_room :: "string \<Rightarrow> player \<Rightarrow> int \<Rightarrow> room \<Rightarrow> room" where
  "scored_room playerId player pts room =
     room\<lparr>players := AList.update playerId
                        (player\<lparr>score := score player + pts, guessedThisRound := True\<rparr>)
                        (players room),
          roundAnswered := insert playerId (roundAnswered room)\<rparr>"

definition submit_guess ::
  "real \<Rightarrow> string \<Rightarrow> string \<Rightarrow> string \<Rightarrow> world \<Rightarrow> (world \<times> event list) option" where
  "submit_guess now sid roomCode guess w =
     (case get_room w roomCode of
        None \<Rightarrow> Some (w, [])
      | Some (ref, room) \<Rightarrow>
          if state room \<noteq> Playing then Some (w, [])
          else (case s_playerId (sockets w sid) of
             None \<Rightarrow> Some (w, [])
           | Some playerId \<Rightarrow>
              (case map_of (players room) playerId of
                 None \<Rightarrow> Some (w, [])
               | Some player \<Rightarrow>
                   if playerId \<in> roundAnswered room then Some (w, [])
                   else if currentRound room < length (puzzles room) then
                     let puzzle = puzzles room ! currentRound room;
                         result = checkGuess guess (answer puzzle)
                     in if match result = Wrong
                        then Some (w, [(ToSocket sid, GuessResultWrong guess)])
                        else
                          let remaining = remaining_time now room;
                              pts = calcScore remaining (timePerRound room) (match result)
                                      (similarity result);
                              room1 = scored_room playerId player pts room;
                              evs = [(ToSocket sid,
                                       GuessResult (match result) pts (score player + pts)
                                         (if match result = Correct then Some (answer puzzle)
                                          else None)),
                                     (ToRoom roomCode, LeaderboardUpdate (getLeaderboard room1)),
                                     (ToRoom roomCode,
                                       PlayerGuessed (p_name player) (match result))];
                              allAnswered = list_all (\<lambda>p. p_id p \<in> roundAnswered room1)
                                              (filter online (player_values room1))
                          in if allAnswered
                             then (case endRound ref now room1 (sched w) of
                                     None \<Rightarrow> None
                                   | Some (room2, s2, evs2) \<Rightarrow>
                                       Some ((put_room ref room2 w)\<lparr>sched := s2\<rparr>, evs @ evs2))
                             else Some (put_room ref room1 w, evs)
                   else None)))"

definition next_round :: "real \<Rightarrow> string \<Rightarrow> string \<Rightarrow> world \<Rightarrow> (world \<times> event list) option" where
  "next_round now sid roomCode w =
     (case get_room w roomCode of
        None \<Rightarrow> Some (w, [])
      | Some (ref, room) \<Rightarrow>
          if Some sid \<noteq> hostId room then Some (w, [])
          else if int (currentRound room) \<ge> totalRounds room - 1
          then (let (room1, s1, evs) = endGame room (sched w)
                in Some ((put_room ref room1 w)\<lparr>sched := s1\<rparr>, evs))
          else (case startRound ref now (room\<lparr>currentRound := currentRound room + 1\<rparr>) (sched w) of
                  None \<Rightarrow> None
                | Some (room1, s1, evs) \<Rightarrow> Some ((put_room ref room1 w)\<lparr>sched := s1\<rparr>, evs)))"

text \<open>\<^verbatim>\<open>!room.hostId\<close>: the host id is \<^verbatim>\<open>null\<close> or the empty string.\<close>

definition no_host :: "room \<Rightarrow> bool" where
  "no_host room \<longleftrightarrow> hostId room = None \<or> hostId room = Some []"

text \<open>
  The two blocks of the \<^verbatim>\<open>disconnect\<close> handler: the player of the socket goes offline
  (lines 353 to 363), and a host socket hands the host role to the first online player
  (lines 366 to 372).
\<close>

definition mark_offline :: "string \<Rightarrow> string option \<Rightarrow> room \<Rightarrow> room \<times> event list" where
  "mark_offline roomCode playerId room =
     (case playerId of
        None \<Rightarrow> (room, [])
      | Some k \<Rightarrow>
         (case map_of (players room) k of
            None \<Rightarrow> (room, [])
          | Some p \<Rightarrow>
              let r1 = room\<lparr>players := AList.update k
                              (p\<lparr>online := False, socketId := None\<rparr>) (players room)\<rparr>
              in (r1,
                  [(ToRoom roomCode,
                     PlayerLeft (p_name p) (onlineCount r1) (name_online_list r1)),
                   (ToRoom roomCode, LeaderboardUpdate (getLeaderboard r1))])))"

definition transfer_host :: "bool \<Rightarrow> room \<Rightarrow> room \<times> event list" where
  "transfer_host isHost room =
     (if isHost
      then (case filter online (player_values room) of
              [] \<Rightarrow> (room, [])
            | onlinePlayer # _ \<Rightarrow>
                (room\<lparr>hostId := socketId onlinePlayer\<rparr>,
                 (case socketId onlinePlayer of
                    None \<Rightarrow> []
                  | Some s \<Rightarrow> [(ToSocket s, HostPromoted)])))
      else (room, []))"

definition disconnect :: "real \<Rightarrow> string \<Rightarrow> world \<Rightarrow> world \<times> event list" where
  "disconnect now sid w =
     (case s_roomCode (sockets w sid) of
        None \<Rightarrow> (w, [])
      | Some roomCode \<Rightarrow>
         (case get_room w roomCode of
            None \<Rightarrow> (w, [])
          | Some (ref, room) \<Rightarrow>
              let (room1, evs1) = mark_offline roomCode (s_playerId (sockets w sid)) room;
                  (room2, evs2) = transfer_host (s_isHost (sockets w sid)) room1;
                  s2 = (if onlineCount room2 = 0 \<and> no_host room2
                        then snd (setTimeout (ReapCb roomCode) (10 * 60 * 1000) now (sched w))
                        else sched w)
              in ((put_room ref room2 w)\<lparr>sched := s2\<rparr>, evs1 @ evs2)))"

text \<open>
  A timeout fires: it leaves the table of pending timers and its callback runs. A handle
  that is not pending (never set, already fired, or cleared) and a timer that is not yet
  due do nothing.
\<close>

definition fire :: "real \<Rightarrow> nat \<Rightarrow> world \<Rightarrow> (world \<times> event list) option" where
  "fire now t w =
     (case pending (sched w) t of
        None \<Rightarrow> Some (w, [])
      | Some tm \<Rightarrow>
          if now < due tm then Some (w, [])
          else
            let s0 = clearTimeout t (sched w)
            in (case callback tm of
                  HintCb ref level msg \<Rightarrow>
                    (case heap w ref of
                       None \<Rightarrow> Some (w\<lparr>sched := s0\<rparr>, [])
                     | Some room \<Rightarrow> Some (w\<lparr>sched := s0\<rparr>, [(ToRoom (code room), Hint level msg)]))
                | RoundEndCb ref \<Rightarrow>
                    (case heap w ref of
                       None \<Rightarrow> Some (w\<lparr>sched := s0\<rparr>, [])
                     | Some room \<Rightarrow>
                        (case endRound ref now room s0 of
                           None \<Rightarrow> None
                         | Some (room1, s1, evs) \<Rightarrow> Some ((put_room ref room1 w)\<lparr>sched := s1\<rparr>, evs)))
                | AdvanceCb ref \<Rightarrow>
                    (case heap w ref of
                       None \<Rightarrow> Some (w\<lparr>sched := s0\<rparr>, [])
                     | Some room \<Rightarrow>
                        (case startRound ref now (room\<lparr>currentRound := currentRound room + 1\<rparr>) s0 of
                           None \<Rightarrow> None
                         | Some (room1, s1, evs) \<Rightarrow> Some ((put_room ref room1 w)\<lparr>sched := s1\<rparr>, evs)))
                | EndGameCb ref \<Rightarrow>
                    (case heap w ref of
                       None \<Rightarrow> Some (w\<lparr>sched := s0\<rparr>, [])
                     | Some room \<Rightarrow>
                        (let (room1, s1, evs) = endGame room s0
                         in Some ((put_room ref room1 w)\<lparr>sched := s1\<rparr>, evs)))
                | ReapCb roomCode \<Rightarrow>
                    (case get_room w roomCode of
                       None \<Rightarrow> Some (w\<lparr>sched := s0\<rparr>, [])
                     | Some (ref, r) \<Rightarrow>
                         if onlineCount r = 0
                         then (let (r1, s1) = clearTimers r s0
                               in Some ((put_room ref r1 w)\<lparr>sched := s1,
                                                           rooms := (rooms w)(roomCode := None)\<rparr>, []))
                         else Some (w\<lparr>sched := s0\<rparr>, []))))"

subsection \<open>The process as a transition system\<close>

datatype input =
    CreateRoom "real list"
  | Upload string "puzzle list"
  | HostJoin string string "string option"
  | JoinRoom string string string "string option" string string
  | StartGame string string int real
  | SubmitGuess string string string
  | NextRound string string
  | Disconnect string
  | Fire nat

definition step :: "real \<Rightarrow> input \<Rightarrow> world \<Rightarrow> (world \<times> event list) option" where
  "step now inp w =
     (case inp of
        CreateRoom rs \<Rightarrow> Some (create_room rs w)
      | Upload roomCode pz \<Rightarrow> Some (upload roomCode pz w)
      | HostJoin sid roomCode sessionId \<Rightarrow> Some (host_join sid roomCode sessionId w)
      | JoinRoom sid roomCode playerName sessionId uuidPlayer uuidSession \<Rightarrow>
          join_room now sid roomCode playerName sessionId uuidPlayer uuidSession w
      | StartGame sid roomCode rounds tpr \<Rightarrow> start_game now sid roomCode rounds tpr w
      | SubmitGuess sid roomCode guess \<Rightarrow> submit_guess now sid roomCode guess w
      | NextRound sid roomCode \<Rightarrow> next_round now sid roomCode w
      | Disconnect sid \<Rightarrow> Some (disconnect now sid w)
      | Fire t \<Rightarrow> fire now t w)"

definition init_world :: world where
  "init_world =
     \<lparr>rooms = Map.empty, heap = Map.empty, nextRef = 0,
      sockets = (\<lambda>_. \<lparr>s_roomCode = None, s_playerId = None, s_sessionId = None, s_isHost = False\<rparr>),
      sched = \<lparr>pending = Map.empty, nextTimer = 0\<rparr>\<rparr>"

text \<open>Running a list of timed inputs; the events are collected in order.\<close>

fun run :: "(real \<times> input) list \<Rightarrow> world \<Rightarrow> (world \<times> event list) option" where
  "run [] w = Some (w, [])"
| "run ((now, inp) # rest) w =
     (case step now inp w of
        None \<Rightarrow> None
      | Some (w1, evs1) \<Rightarrow>
          (case run rest w1 of
             None \<Rightarrow> None
           | Some (w2, evs2) \<Rightarrow> Some (w2, evs1 @ evs2)))"

inductive reachable :: "world \<Rightarrow> bool" where
  init: "reachable init_world"
| step: "reachable w \<Longrightarrow> step now inp w = Some (w', evs) \<Longrightarrow> reachable w'"

subsection \<open>Observations on a state and a sample game\<close>

definition score_of :: "world \<Rightarrow> string \<Rightarrow> string \<Rightarrow> int option" where
  "score_of w roomCode playerId =
     (case get_room w roomCode of None \<Rightarrow> None
      | Some (ref, room) \<Rightarrow> map_option score (map_of (players room) playerId))"

definition world_after :: "(real \<times> input) list \<Rightarrow> world" where
  "world_after tr = (case run tr init_world of Some (w, evs) \<Rightarrow> w | None \<Rightarrow> init_world)"

definition events_of :: "(real \<times> input) list \<Rightarrow> event list option" where
  "events_of tr = map_option snd (run tr init_world)"

definition room_of :: "world \<Rightarrow> string \<Rightarrow> room" where
  "room_of w roomCode = (case get_room w roomCode of Some (ref, room) \<Rightarrow> room | None \<Rightarrow> new_room roomCode)"

definition ref_of :: "world \<Rightarrow> string \<Rightarrow> nat option" where
  "ref_of w roomCode = map_option fst (get_room w roomCode)"

definition player_of :: "room \<Rightarrow> string \<Rightarrow> player" where
  "player_of room playerId =
     (case map_of (players room) playerId of Some p \<Rightarrow> p
      | None \<Rightarrow> \<lparr>p_id = playerId, socketId = None, p_name = [], score = 0, online = False,
                  guessedThisRound = False\<rparr>)"

text \<open>A game of two players: the room is created, filled, joined and started.\<close>

definition two_puzzles :: "puzzle list" where
  "two_puzzles =
     [\<lparr>image_url = ''img0'', answer = ''The Eiffel Tower'',
        hint1 = ''T__ E_____ T____ (3 words)'', hint2 = ''T_E E_F_E_ T_W_R''\<rparr>,
      \<lparr>image_url = ''img1'', answer = ''cat'', hint1 = ''C__ (1 word)'', hint2 = ''C_T''\<rparr>]"

definition game_started :: "(real \<times> input) list" where
  "game_started =
     [(0, CreateRoom [0, 0, 0, 0, 0, 0]),
      (1, Upload ''AAAAAA'' two_puzzles),
      (2, HostJoin ''h'' ''AAAAAA'' None),
      (3, JoinRoom ''s1'' ''aaaaaa'' ''Ann'' None ''p1'' ''t1''),
      (4, JoinRoom ''s2'' ''aaaaaa'' ''Bob'' None ''p2'' ''t2''),
      (1000, StartGame ''h'' ''AAAAAA'' 0 30)]"

subsection \<open>Invariants of the reachable states\<close>

text \<open>
  The room a game callback closes over, the timer handles a room keeps in \<open>roundTimer\<close>
  and \<open>hintTimers\<close>, and the invariants: registry entries point to room objects;
  \<open>roundAnswered\<close> holds ids of players of the room and every player is stored under its
  own id; every pending game timer is kept by the room it belongs to, and every handle is
  below the next handle.
\<close>

definition cb_room :: "callback \<Rightarrow> nat option" where
  "cb_room cb = (case cb of HintCb ref _ _ \<Rightarrow> Some ref | RoundEndCb ref \<Rightarrow> Some ref
                 | AdvanceCb ref \<Rightarrow> Some ref | EndGameCb ref \<Rightarrow> Some ref | ReapCb _ \<Rightarrow> None)"

definition tracks :: "room \<Rightarrow> nat \<Rightarrow> bool" where
  "tracks room t \<longleftrightarrow> roundTimer room = Some t \<or> t \<in> set (hintTimers room)"

definition inv_refs :: "world \<Rightarrow> bool" where
  "inv_refs w \<longleftrightarrow>
     (\<forall>c ref. rooms w c = Some ref \<longrightarrow> heap w ref \<noteq> None) \<and>
     (\<forall>ref. heap w ref \<noteq> None \<longrightarrow> ref < nextRef w)"

definition ids_ok :: "(string \<times> player) list \<Rightarrow> bool" where
  "ids_ok ps \<longleftrightarrow> (\<forall>(k, p) \<in> set ps. p_id p = k)"

definition room_ok :: "room \<Rightarrow> bool" where
  "room_ok room \<longleftrightarrow>
     roundAnswered room \<subseteq> fst ` set (players room) \<and> ids_ok (players room)"

definition inv_answered :: "world \<Rightarrow> bool" where
  "inv_answered w \<longleftrightarrow> (\<forall>ref room. heap w ref = Some room \<longrightarrow> room_ok room)"

definition inv_timers :: "world \<Rightarrow> bool" where
  "inv_timers w \<longleftrightarrow>
     (\<forall>t tm. pending (sched w) t = Some tm \<longrightarrow>
        t < nextTimer (sched w) \<and>
        (\<forall>ref. cb_room (callback tm) = Some ref \<longrightarrow>
           (\<exists>room. heap w ref = Some room \<and> tracks room t))) \<and>
     (\<forall>ref room t. heap w ref = Some room \<longrightarrow> tracks room t \<longrightarrow> t < nextTimer (sched w))"

definition cleared :: "room \<Rightarrow> sched \<Rightarrow> nat \<rightharpoonup> timer" where
  "cleared room s = (\<lambda>t. if tracks room t then None else pending s t)"

definition inv :: "world \<Rightarrow> bool" where
  "inv w \<longleftrightarrow> inv_refs w \<and> inv_answered w \<and> inv_timers w"

definition sched_le :: "sched \<Rightarrow> sched \<Rightarrow> bool" where
  "sched_le s s' \<longleftrightarrow>
     nextTimer s \<le> nextTimer s' \<and>
     (\<forall>t. t < nextTimer s \<longrightarrow> pending s t = None \<longrightarrow> pending s' t = None)"



text \<open>Observations on event lists and rooms, and a game with a single player.\<close>

definition round_ends :: "event list \<Rightarrow> (string \<times> nat) list" where
  "round_ends evs =
     concat (map (\<lambda>e. case snd e of RoundEnd a n tot lb l \<Rightarrow> [(a, n)] | _ \<Rightarrow> []) evs)"

definition online_ids :: "room \<Rightarrow> string list" where
  "online_ids room = map p_id (filter online (player_values room))"




section \<open>Properties of the guess evaluator and the scorer\<close>

subsection \<open>The recursion computes the least number of single-character edits\<close>

lemma edit_distance_Nil2 [simp]: "edit_distance xs [] = length xs"
  by (cases xs) simp_all

lemma edit_distance_same [simp]: "edit_distance xs xs = 0"
  by (induction xs) simp_all

lemma edit_distance_commute: "edit_distance xs ys = edit_distance ys xs"
  by (induction xs ys rule: edit_distance.induct) (auto simp: min_def)

lemma edit_distance_Cons_bounds:
  "edit_distance xs ys \<le> 1 + edit_distance (x # xs) ys \<and>
   edit_distance xs (y # ys) \<le> 1 + edit_distance xs ys"
proof (induction "length xs + length ys" arbitrary: xs ys x y rule: less_induct)
  case less
  have A: "edit_distance xs ys \<le> 1 + edit_distance (x # xs) ys"
  proof (cases ys)
    case Nil
    then show ?thesis by simp
  next
    case (Cons y' ys')
    have 1: "edit_distance xs (y' # ys') \<le> 1 + edit_distance xs ys'"
      using less[of xs ys'] Cons by simp
    have 2: "edit_distance xs ys' \<le> 1 + edit_distance (x # xs) ys'"
      using less[of xs ys'] Cons by simp
    show ?thesis using Cons 1 2 by (simp add: min_def)
  qed
  have D: "edit_distance xs (y # ys) \<le> 1 + edit_distance xs ys"
  proof (cases xs)
    case Nil
    then show ?thesis by simp
  next
    case (Cons x' xs')
    have "edit_distance xs' ys \<le> 1 + edit_distance (x' # xs') ys"
      using less[of xs' ys] Cons by simp
    then show ?thesis using Cons by (auto simp: min_def)
  qed
  from A D show ?case by blast
qed

lemma edit_distance_drop_left: "edit_distance xs ys \<le> 1 + edit_distance (x # xs) ys"
  by (rule edit_distance_Cons_bounds[THEN conjunct1])

lemma edit_distance_add_right: "edit_distance xs (y # ys) \<le> 1 + edit_distance xs ys"
  by (rule edit_distance_Cons_bounds[THEN conjunct2])

lemma edit_distance_drop_right: "edit_distance xs ys \<le> 1 + edit_distance xs (y # ys)"
  using edit_distance_drop_left[of ys xs y] by (simp add: edit_distance_commute)

lemma edit_distance_add_left: "edit_distance (x # xs) ys \<le> 1 + edit_distance xs ys"
  using edit_distance_add_right[of ys x xs] by (simp add: edit_distance_commute)

lemma edit_distance_subst_right:
  "edit_distance xs (c # ys) \<le> 1 + edit_distance xs (d # ys)"
proof (induction xs)
  case Nil
  then show ?case by simp
next
  case (Cons x xs)
  let ?L = "edit_distance (x # xs) (c # ys)"
  have B: "edit_distance xs ys \<le> 1 + edit_distance xs (d # ys)"
    by (rule edit_distance_drop_right)
  have A: "edit_distance xs ys \<le> 1 + edit_distance (x # xs) ys"
    by (rule edit_distance_drop_left)
  have L1: "?L \<le> 1 + edit_distance xs ys"
    by (simp add: min_le_iff_disj)
  have L2: "?L \<le> 1 + edit_distance (x # xs) ys"
    using A by (auto simp: min_le_iff_disj)
  have L3: "?L \<le> 2 + edit_distance xs (d # ys)"
    using B Cons by (auto simp: min_le_iff_disj)
  show ?case
  proof (cases "x = d")
    case True
    then show ?thesis using L1 by simp
  next
    case False
    then have "edit_distance (x # xs) (d # ys) =
        1 + min (edit_distance xs (d # ys)) (min (edit_distance (x # xs) ys) (edit_distance xs ys))"
      by simp
    then show ?thesis using L1 L2 L3 by (simp only: min_def split: if_splits) linarith+
  qed
qed

lemma edit_step_append: "edit_step ys zs \<Longrightarrow> edit_step (u @ ys) (u @ zs)"
  by (induction u) (auto intro: edit_step.cong)

lemma single_edit_iff_step: "single_edit ys zs \<longleftrightarrow> edit_step ys zs"
proof
  assume "single_edit ys zs"
  then show "edit_step ys zs"
    unfolding single_edit_def
    by (auto intro: edit_step_append edit_step.ins edit_step.del edit_step.sub)
next
  assume "edit_step ys zs"
  then show "single_edit ys zs"
  proof (induction rule: edit_step.induct)
    case (ins ys c)
    have "ys = [] @ ys \<and> c # ys = [] @ c # ys" by simp
    then show ?case unfolding single_edit_def by blast
  next
    case (del c ys)
    have "c # ys = [] @ c # ys \<and> ys = [] @ ys" by simp
    then show ?case unfolding single_edit_def by blast
  next
    case (sub c ys d)
    have "c # ys = [] @ c # ys \<and> d # ys = [] @ d # ys" by simp
    then show ?case unfolding single_edit_def by blast
  next
    case (cong ys zs c)
    from cong.IH consider
        (i) u v e where "ys = u @ v" "zs = u @ e # v"
      | (d) u v e where "ys = u @ e # v" "zs = u @ v"
      | (s) u v e f where "ys = u @ e # v" "zs = u @ f # v"
      unfolding single_edit_def by blast
    then show ?case
    proof cases
      case i
      then have "c # ys = (c # u) @ v \<and> c # zs = (c # u) @ e # v" by simp
      then show ?thesis unfolding single_edit_def by blast
    next
      case d
      then have "c # ys = (c # u) @ e # v \<and> c # zs = (c # u) @ v" by simp
      then show ?thesis unfolding single_edit_def by blast
    next
      case s
      then have "c # ys = (c # u) @ e # v \<and> c # zs = (c # u) @ f # v" by simp
      then show ?thesis unfolding single_edit_def by blast
    qed
  qed
qed

lemma edit_step_length: "edit_step ys zs \<Longrightarrow> length zs \<le> Suc (length ys)"
  by (induction rule: edit_step.induct) auto

lemma edit_distance_step: "edit_step ys zs \<Longrightarrow> edit_distance xs zs \<le> 1 + edit_distance xs ys"
proof (induction arbitrary: xs rule: edit_step.induct)
  case (ins ys c)
  show ?case by (rule edit_distance_add_right)
next
  case (del c ys)
  show ?case by (rule edit_distance_drop_right)
next
  case (sub c ys d)
  show ?case by (rule edit_distance_subst_right)
next
  case (cong ys zs c)
  show ?case
  proof (induction xs)
    case Nil
    then show ?case using edit_step_length[OF cong.hyps] by simp
  next
    case (Cons x xs)
    have 1: "edit_distance (x # xs) zs \<le> 1 + edit_distance (x # xs) ys" by (rule cong.IH)
    have 2: "edit_distance xs zs \<le> 1 + edit_distance xs ys" by (rule cong.IH)
    show ?case using Cons 1 2 by (simp add: min_def)
  qed
qed

lemma relpowp_edit_lower: "(single_edit ^^ n) xs ys \<Longrightarrow> edit_distance xs ys \<le> n"
proof (induction n arbitrary: ys)
  case 0
  then show ?case by simp
next
  case (Suc n)
  then obtain z where z: "(single_edit ^^ n) xs z" "single_edit z ys" by auto
  have "edit_distance xs ys \<le> 1 + edit_distance xs z"
    using z(2) edit_distance_step[of z ys xs] by (simp add: single_edit_iff_step)
  with Suc.IH[OF z(1)] show ?case by simp
qed

lemma relpowp_step_cong: "(edit_step ^^ n) xs ys \<Longrightarrow> (edit_step ^^ n) (c # xs) (c # ys)"
proof (induction n arbitrary: ys)
  case 0
  then show ?case by simp
next
  case (Suc n)
  then obtain z where z: "(edit_step ^^ n) xs z" "edit_step z ys" by auto
  from Suc.IH[OF z(1)] edit_step.cong[OF z(2)] show ?case by auto
qed

lemma relpowp_edit_upper: "(edit_step ^^ edit_distance xs ys) xs ys"
proof (induction xs ys rule: edit_distance.induct)
  case (1 ys)
  show ?case
  proof (induction ys)
    case Nil
    then show ?case by simp
  next
    case (Cons y ys)
    have "edit_step ys (y # ys)" by (rule edit_step.ins)
    with Cons show ?case by auto
  qed
next
  case (2 x xs)
  have "(edit_step ^^ length zs) zs []" for zs :: "'a list"
  proof (induction zs)
    case Nil
    then show ?case by simp
  next
    case (Cons z zs)
    have "(edit_step ^^ Suc (length zs)) (z # zs) []"
      by (rule relpowp_Suc_I2[OF _ Cons]) (rule edit_step.del)
    then show ?case by (simp del: relpowp.simps)
  qed
  from this[of "x # xs"] show ?case by simp
next
  case (3 x xs y ys)
  show ?case
  proof (cases "x = y")
    case True
    with 3 show ?thesis by (simp add: relpowp_step_cong)
  next
    case False
    let ?a = "edit_distance xs (y # ys)" and ?b = "edit_distance (x # xs) ys"
      and ?c = "edit_distance xs ys"
    have a: "(edit_step ^^ Suc ?a) (x # xs) (y # ys)"
      by (rule relpowp_Suc_I2[OF _ 3(2)[OF False]]) (rule edit_step.del)
    have b: "(edit_step ^^ Suc ?b) (x # xs) (y # ys)"
      using 3(3)[OF False] edit_step.ins[of ys y] by auto
    have c: "(edit_step ^^ Suc ?c) (x # xs) (y # ys)"
      by (rule relpowp_Suc_I2[OF _ relpowp_step_cong[OF 3(4)[OF False]]]) (rule edit_step.sub)
    have "edit_distance (x # xs) (y # ys) = Suc (min ?a (min ?b ?c))"
      using False by simp
    moreover have "min ?a (min ?b ?c) = ?a \<or> min ?a (min ?b ?c) = ?b \<or> min ?a (min ?b ?c) = ?c"
      by (auto simp: min_def)
    ultimately show ?thesis using a b c by metis
  qed
qed

lemma single_edit_eq_step: "single_edit = edit_step"
  by (intro ext) (rule single_edit_iff_step)

lemma edit_distance_is_least:
  "edit_distance xs ys = (LEAST n. (single_edit ^^ n) xs ys)"
proof (rule Least_equality[symmetric])
  show "(single_edit ^^ edit_distance xs ys) xs ys"
    by (simp add: single_edit_eq_step relpowp_edit_upper)
  show "\<And>n. (single_edit ^^ n) xs ys \<Longrightarrow> edit_distance xs ys \<le> n"
    by (rule relpowp_edit_lower)
qed

lemma single_edit_rev: "single_edit xs ys \<Longrightarrow> single_edit (rev xs) (rev ys)"
proof -
  assume "single_edit xs ys"
  then consider
      (i) u v e where "xs = u @ v" "ys = u @ e # v"
    | (d) u v e where "xs = u @ e # v" "ys = u @ v"
    | (s) u v e f where "xs = u @ e # v" "ys = u @ f # v"
    unfolding single_edit_def by blast
  then show ?thesis
  proof cases
    case i
    then have "rev xs = rev v @ rev u \<and> rev ys = rev v @ e # rev u" by simp
    then show ?thesis unfolding single_edit_def by blast
  next
    case d
    then have "rev xs = rev v @ e # rev u \<and> rev ys = rev v @ rev u" by simp
    then show ?thesis unfolding single_edit_def by blast
  next
    case s
    then have "rev xs = rev v @ e # rev u \<and> rev ys = rev v @ f # rev u" by simp
    then show ?thesis unfolding single_edit_def by blast
  qed
qed

lemma relpowp_single_edit_rev:
  "(single_edit ^^ n) xs ys \<Longrightarrow> (single_edit ^^ n) (rev xs) (rev ys)"
proof (induction n arbitrary: ys)
  case 0
  then show ?case by simp
next
  case (Suc n)
  then obtain z where z: "(single_edit ^^ n) xs z" "single_edit z ys" by auto
  from Suc.IH[OF z(1)] single_edit_rev[OF z(2)] show ?case by auto
qed

lemma edit_distance_rev_le: "edit_distance (rev xs) (rev ys) \<le> edit_distance xs ys"
proof -
  have "(single_edit ^^ edit_distance xs ys) xs ys"
    by (simp add: single_edit_eq_step relpowp_edit_upper)
  then show ?thesis
    by (intro relpowp_edit_lower relpowp_single_edit_rev)
qed

lemma edit_distance_rev: "edit_distance (rev xs) (rev ys) = edit_distance xs ys"
  using edit_distance_rev_le[of xs ys] edit_distance_rev_le[of "rev xs" "rev ys"] by simp

subsection \<open>The table of \<open>levenshtein\<close> holds edit distances\<close>

lemma lev_entry_col0: "r \<le> length a \<Longrightarrow> lev_entry a b r 0 = r"
  by (simp add: lev_entry_def)

lemma lev_entry_row0: "c \<le> length b \<Longrightarrow> lev_entry a b 0 c = c"
  by (simp add: lev_entry_def)

lemma lev_entry_Suc:
  assumes "r < length a" "c < length b"
  shows "lev_entry a b (Suc r) (Suc c) =
     (if a ! r = b ! c then lev_entry a b r c
      else 1 + min (lev_entry a b r (Suc c)) (min (lev_entry a b (Suc r) c) (lev_entry a b r c)))"
  using assms by (simp add: lev_entry_def take_Suc_conv_app_nth)

lemma lev_table_update:
  assumes ok: "lev_table_ok a b P dp"
    and r: "r \<le> length a" and c: "c \<le> length b"
    and v: "v = lev_entry a b r c"
    and Q: "\<And>r' c'. Q r' c' \<Longrightarrow> P r' c' \<or> (r' = r \<and> c' = c)"
  shows "lev_table_ok a b Q (dp[r := (dp ! r)[c := v]])"
proof -
  from ok have len: "length dp = length a + 1"
    and rows: "\<And>r. r \<le> length a \<Longrightarrow> length (dp ! r) = length b + 1"
    and vals: "\<And>r c. r \<le> length a \<Longrightarrow> c \<le> length b \<Longrightarrow> P r c \<Longrightarrow> dp ! r ! c = lev_entry a b r c"
    unfolding lev_table_ok_def by auto
  let ?dp = "dp[r := (dp ! r)[c := v]]"
  have 1: "length ?dp = length a + 1" using len by simp
  have 2: "length (?dp ! r') = length b + 1" if "r' \<le> length a" for r'
    using that len rows[of r'] rows[of r] r by (cases "r' = r") simp_all
  have 3: "?dp ! r' ! c' = lev_entry a b r' c'"
    if "r' \<le> length a" "c' \<le> length b" "Q r' c'" for r' c'
  proof (cases "r' = r")
    case True
    show ?thesis
    proof (cases "c' = c")
      case True
      with \<open>r' = r\<close> show ?thesis using len r c rows[of r] v by simp
    next
      case False
      with Q[OF that(3)] \<open>r' = r\<close> have "P r c'" by simp
      from vals[OF r that(2) this] show ?thesis using \<open>r' = r\<close> False len r by simp
    qed
  next
    case False
    with Q[OF that(3)] have "P r' c'" by simp
    from vals[OF that(1,2) this] show ?thesis using False by simp
  qed
  show ?thesis unfolding lev_table_ok_def using 1 2 3 by blast
qed

lemma lev_table_weaken:
  assumes "lev_table_ok a b P dp"
    and "\<And>r c. r \<le> length a \<Longrightarrow> c \<le> length b \<Longrightarrow> Q r c \<Longrightarrow> P r c"
  shows "lev_table_ok a b Q dp"
  using assms unfolding lev_table_ok_def by blast

lemma fold_upt_Suc: "i \<le> k \<Longrightarrow> fold f [i..<Suc k] x = f k (fold f [i..<k] x)"
  by simp

lemma lev_init_ok:
  "lev_table_ok a b (\<lambda>r c. False) (replicate (length a + 1) (replicate (length b + 1) 0))"
  unfolding lev_table_ok_def by (simp del: replicate_Suc)

lemma lev_first_column:
  assumes "lev_table_ok a b (\<lambda>r c. False) dp" "k \<le> length a + 1"
  shows "lev_table_ok a b (\<lambda>r c. c = 0 \<and> r < k)
           (fold (\<lambda>i dp. dp[i := (dp ! i)[0 := i]]) [0..<k] dp)"
  using assms(2)
proof (induction k)
  case 0
  from assms(1) show ?case unfolding lev_table_ok_def by simp
next
  case (Suc k)
  then have IH: "lev_table_ok a b (\<lambda>r c. c = 0 \<and> r < k)
           (fold (\<lambda>i dp. dp[i := (dp ! i)[0 := i]]) [0..<k] dp)" and k: "k \<le> length a"
    by simp_all
  show ?case
    unfolding fold_upt_Suc[OF le0]
    by (rule lev_table_update[OF IH k]) (auto simp: lev_entry_col0 k)
qed

lemma lev_first_row:
  assumes "lev_table_ok a b (\<lambda>r c. c = 0) dp" "k \<le> length b + 1"
  shows "lev_table_ok a b (\<lambda>r c. c = 0 \<or> (r = 0 \<and> c < k))
           (fold (\<lambda>j dp. dp[0 := (dp ! 0)[j := j]]) [0..<k] dp)"
  using assms(2)
proof (induction k)
  case 0
  from assms(1) show ?case unfolding lev_table_ok_def by simp
next
  case (Suc k)
  then have IH: "lev_table_ok a b (\<lambda>r c. c = 0 \<or> (r = 0 \<and> c < k))
           (fold (\<lambda>j dp. dp[0 := (dp ! 0)[j := j]]) [0..<k] dp)" and k: "k \<le> length b"
    by simp_all
  show ?case
    unfolding fold_upt_Suc[OF le0]
    by (rule lev_table_update[OF IH _ k]) (auto simp: lev_entry_row0 k)
qed

lemma lev_cell_ok:
  assumes ok: "lev_table_ok a b (\<lambda>r c. c = 0 \<or> r < i \<or> (r = i \<and> c < l)) dp"
    and i: "1 \<le> i" "i \<le> length a" and l: "1 \<le> l" "l \<le> length b"
  shows "lev_table_ok a b (\<lambda>r c. c = 0 \<or> r < i \<or> (r = i \<and> c < Suc l)) (lev_cell a b i l dp)"
proof -
  from ok have vals: "\<And>r c. r \<le> length a \<Longrightarrow> c \<le> length b \<Longrightarrow>
      c = 0 \<or> r < i \<or> (r = i \<and> c < l) \<Longrightarrow> dp ! r ! c = lev_entry a b r c"
    unfolding lev_table_ok_def by auto
  obtain i' l' where i': "i = Suc i'" and l': "l = Suc l'"
    using i(1) l(1) by (cases i; cases l) auto
  have d: "dp ! i' ! l' = lev_entry a b i' l'"
    using vals[of i' l'] i l i' l' by simp
  have u: "dp ! i' ! l = lev_entry a b i' l"
    using vals[of i' l] i l i' l' by simp
  have w: "dp ! i ! l' = lev_entry a b i l'"
    using vals[of i l'] i l i' l' by simp
  have v: "(if a ! (i - 1) = b ! (l - 1) then dp ! (i - 1) ! (l - 1)
            else 1 + min (dp ! (i - 1) ! l) (min (dp ! i ! (l - 1)) (dp ! (i - 1) ! (l - 1))))
           = lev_entry a b i l"
    using d u w i l unfolding i' l' by (simp add: lev_entry_Suc)
  show ?thesis
    unfolding lev_cell_def
    by (rule lev_table_update[OF ok i(2) l(2) v]) auto
qed

lemma lev_row_cells:
  assumes ok: "lev_table_ok a b (\<lambda>r c. c = 0 \<or> r < i) dp"
    and i: "1 \<le> i" "i \<le> length a" and k: "k \<le> length b"
  shows "lev_table_ok a b (\<lambda>r c. c = 0 \<or> r < i \<or> (r = i \<and> c < Suc k))
           (fold (lev_cell a b i) [1..<Suc k] dp)"
  using k
proof (induction k)
  case 0
  from ok show ?case unfolding lev_table_ok_def by auto
next
  case (Suc k)
  then have IH: "lev_table_ok a b (\<lambda>r c. c = 0 \<or> r < i \<or> (r = i \<and> c < Suc k))
           (fold (lev_cell a b i) [1..<Suc k] dp)" and k: "Suc k \<le> length b"
    by simp_all
  have "fold (lev_cell a b i) [1..<Suc (Suc k)] dp
        = lev_cell a b i (Suc k) (fold (lev_cell a b i) [1..<Suc k] dp)"
    by (rule fold_upt_Suc) simp
  then show ?case using lev_cell_ok[OF IH i _ k] by simp
qed

lemma lev_row_ok:
  assumes ok: "lev_table_ok a b (\<lambda>r c. c = 0 \<or> r < i) dp"
    and i: "1 \<le> i" "i \<le> length a"
  shows "lev_table_ok a b (\<lambda>r c. c = 0 \<or> r < Suc i) (lev_row a b i dp)"
proof -
  have "lev_table_ok a b (\<lambda>r c. c = 0 \<or> r < i \<or> (r = i \<and> c < Suc (length b)))
           (lev_row a b i dp)"
    unfolding lev_row_def using lev_row_cells[OF ok i le_refl] by simp
  then show ?thesis
    by (rule lev_table_weaken) auto
qed

lemma lev_rows_ok:
  assumes ok: "lev_table_ok a b (\<lambda>r c. c = 0 \<or> r < 1) dp" and k: "k \<le> length a"
  shows "lev_table_ok a b (\<lambda>r c. c = 0 \<or> r < Suc k) (fold (lev_row a b) [1..<Suc k] dp)"
  using k
proof (induction k)
  case 0
  from ok show ?case by simp
next
  case (Suc k)
  then have IH: "lev_table_ok a b (\<lambda>r c. c = 0 \<or> r < Suc k) (fold (lev_row a b) [1..<Suc k] dp)"
    and k: "Suc k \<le> length a"
    by simp_all
  have "fold (lev_row a b) [1..<Suc (Suc k)] dp
        = lev_row a b (Suc k) (fold (lev_row a b) [1..<Suc k] dp)"
    by (rule fold_upt_Suc) simp
  then show ?case using lev_row_ok[OF IH _ k] by simp
qed

lemma levenshtein_edit_distance: "levenshtein a b = edit_distance a b"
proof -
  let ?m = "length a" and ?n = "length b"
  let ?dp0 = "replicate (?m + 1) (replicate (?n + 1) (0::nat))"
  let ?dp1 = "fold (\<lambda>i dp. dp[i := (dp ! i)[0 := i]]) [0..<?m + 1] ?dp0"
  let ?dp2 = "fold (\<lambda>j dp. dp[0 := (dp ! 0)[j := j]]) [0..<?n + 1] ?dp1"
  let ?dp3 = "fold (lev_row a b) [1..<?m + 1] ?dp2"
  have "lev_table_ok a b (\<lambda>r c. c = 0 \<and> r < ?m + 1) ?dp1"
    by (rule lev_first_column[OF lev_init_ok]) simp
  then have 1: "lev_table_ok a b (\<lambda>r c. c = 0) ?dp1"
    by (rule lev_table_weaken) auto
  have "lev_table_ok a b (\<lambda>r c. c = 0 \<or> (r = 0 \<and> c < ?n + 1)) ?dp2"
    by (rule lev_first_row[OF 1]) simp
  then have 2: "lev_table_ok a b (\<lambda>r c. c = 0 \<or> r < 1) ?dp2"
    by (rule lev_table_weaken) auto
  have "lev_table_ok a b (\<lambda>r c. c = 0 \<or> r < Suc ?m) ?dp3"
    using lev_rows_ok[OF 2 le_refl] by simp
  then have "?dp3 ! ?m ! ?n = lev_entry a b ?m ?n"
    unfolding lev_table_ok_def by simp
  also have "\<dots> = edit_distance a b"
    by (simp add: lev_entry_def edit_distance_rev)
  finally show ?thesis
    by (simp add: levenshtein_def Let_def)
qed

subsection \<open>The regular-expression pipeline of \<open>normalize\<close> against the word view\<close>

lemma white_space_space [simp]: "white_space CHR '' ''"
  by (simp add: white_space_def)

lemma alnum_white_space: "lower_alnum_space c \<Longrightarrow> white_space c \<longleftrightarrow> c = CHR '' ''"
  by (auto simp: lower_alnum_space_def white_space_def)

lemma alnum_word_char: "lower_alnum_space c \<Longrightarrow> word_char c \<longleftrightarrow> c \<noteq> CHR '' ''"
  by (auto simp: lower_alnum_space_def word_char_def)

lemma unwords_Cons: "unwords (w # ws) = (if ws = [] then w else w @ CHR '' '' # unwords ws)"
  by (cases ws) simp_all

lemma words_of_dropWhile: "words_of (dropWhile white_space s) = words_of s"
  by (induction s) simp_all

lemma collapse_ws_word:
  "\<forall>c \<in> set w. \<not> white_space c \<Longrightarrow> collapse_ws (w @ r) = w @ collapse_ws r"
  by (induction w) simp_all

lemma rtrim_append:
  assumes "w \<noteq> []" "\<not> white_space (last w)"
  shows "rev (dropWhile white_space (rev (w @ Y))) = w @ rev (dropWhile white_space (rev Y))"
proof -
  have "dropWhile white_space (rev w) = rev w"
    using assms by (cases "rev w") (auto simp: last_rev[symmetric] simp del: last_rev)
  then show ?thesis
    by (simp add: dropWhile_append)
qed

lemma rtrim_Cons:
  "rev (dropWhile white_space (rev (x # Y))) =
     (if rev (dropWhile white_space (rev Y)) = [] \<and> white_space x then []
      else x # rev (dropWhile white_space (rev Y)))"
  by (auto simp: dropWhile_append)

lemma words_of_word:
  assumes "\<not> white_space c"
  shows "c # cs = (c # takeWhile (\<lambda>d. \<not> white_space d) cs) @ dropWhile (\<lambda>d. \<not> white_space d) cs"
  by simp

lemma dropWhile_not_ws_head:
  "dropWhile (\<lambda>d. \<not> white_space d) cs = [] \<or>
   white_space (hd (dropWhile (\<lambda>d. \<not> white_space d) cs))"
  using hd_dropWhile[of "\<lambda>d. \<not> white_space d" cs] by auto

lemma dropWhile_ws_head:
  "dropWhile white_space cs = [] \<or> \<not> white_space (hd (dropWhile white_space cs))"
  using hd_dropWhile[of white_space cs] by auto

lemma words_of_eq_Nil: "words_of s = [] \<longleftrightarrow> (\<forall>c \<in> set s. white_space c)"
  by (induction s) auto

lemma rtrim_collapse:
  "rev (dropWhile white_space (rev (collapse_ws s))) =
     (if s \<noteq> [] \<and> white_space (hd s) \<and> words_of s \<noteq> [] then '' '' else []) @ unwords (words_of s)"
proof (induction s rule: length_induct)
  case (1 s)
  show ?case
  proof (cases s)
    case Nil
    then show ?thesis by simp
  next
    case (Cons c cs)
    show ?thesis
    proof (cases "white_space c")
      case True
      define s' where "s' = dropWhile white_space cs"
      have col: "collapse_ws s = CHR '' '' # collapse_ws s'"
        using Cons True by (simp add: s'_def)
      have w: "words_of s = words_of s'"
        using Cons True by (simp add: words_of_dropWhile s'_def)
      have hd: "s' = [] \<or> \<not> white_space (hd s')"
        unfolding s'_def by (rule dropWhile_ws_head)
      show ?thesis
      proof (cases s')
        case Nil
        then show ?thesis using col w Cons True by simp
      next
        case (Cons d ds)
        with hd have d: "\<not> white_space d" by simp
        have "length s' < length s"
          using \<open>s = c # cs\<close> by (simp add: length_dropWhile_le less_Suc_eq_le s'_def)
        with 1 have IH: "rev (dropWhile white_space (rev (collapse_ws s'))) =
            (if s' \<noteq> [] \<and> white_space (hd s') \<and> words_of s' \<noteq> [] then '' '' else [])
              @ unwords (words_of s')"
          by blast
        have ne: "words_of s' \<noteq> []"
          using Cons d by simp
        have a: "rev (dropWhile white_space (rev (collapse_ws s'))) = unwords (words_of s')"
          using IH Cons d by simp
        have b: "unwords (words_of s') \<noteq> []"
          using Cons d by (simp add: unwords_Cons)
        have "rev (dropWhile white_space (rev (collapse_ws s))) = CHR '' '' # unwords (words_of s')"
          unfolding col rtrim_Cons a using b by simp
        then show ?thesis
          using w ne \<open>s = c # cs\<close> True by simp
      qed
    next
      case False
      define w where "w = c # takeWhile (\<lambda>d. \<not> white_space d) cs"
      define r where "r = dropWhile (\<lambda>d. \<not> white_space d) cs"
      have s: "s = w @ r" using Cons by (simp add: w_def r_def)
      have allw: "\<forall>x \<in> set w. \<not> white_space x"
        using False by (auto simp: w_def dest: set_takeWhileD)
      have wne: "w \<noteq> []" by (simp add: w_def)
      have col: "collapse_ws s = w @ collapse_ws r"
        unfolding s by (rule collapse_ws_word[OF allw])
      have lastw: "\<not> white_space (last w)"
        using allw last_in_set[OF wne] by blast
      have rt: "rev (dropWhile white_space (rev (collapse_ws s))) =
                  w @ rev (dropWhile white_space (rev (collapse_ws r)))"
        unfolding col by (rule rtrim_append[OF wne lastw])
      have "length r < length s"
        using Cons by (simp add: length_dropWhile_le less_Suc_eq_le r_def)
      with 1 have IH: "rev (dropWhile white_space (rev (collapse_ws r))) =
            (if r \<noteq> [] \<and> white_space (hd r) \<and> words_of r \<noteq> [] then '' '' else [])
              @ unwords (words_of r)"
        by blast
      have ws: "words_of s = w # words_of r"
        using Cons False by (simp add: w_def r_def)
      have hd: "r = [] \<or> white_space (hd r)"
        unfolding r_def by (rule dropWhile_not_ws_head)
      have r: "words_of r \<noteq> [] \<Longrightarrow> r \<noteq> [] \<and> white_space (hd r)"
        using hd by auto
      have "rev (dropWhile white_space (rev (collapse_ws s))) = unwords (w # words_of r)"
        unfolding rt IH unwords_Cons using r by auto
      then show ?thesis
        using ws Cons False by simp
    qed
  qed
qed

lemma trim_collapse: "trim (collapse_ws s) = unwords (words_of s)"
proof (cases s)
  case Nil
  then show ?thesis by (simp add: trim_def)
next
  case (Cons c cs)
  show ?thesis
  proof (cases "white_space c")
    case True
    define s' where "s' = dropWhile white_space cs"
    have hd: "s' = [] \<or> \<not> white_space (hd s')"
      unfolding s'_def by (rule dropWhile_ws_head)
    then have "dropWhile white_space (collapse_ws s') = collapse_ws s'"
      by (cases s') auto
    then have "trim (collapse_ws s) = rev (dropWhile white_space (rev (collapse_ws s')))"
      using Cons True by (simp add: trim_def s'_def)
    also have "\<dots> = unwords (words_of s')"
      using hd by (auto simp: rtrim_collapse)
    finally show ?thesis using Cons True by (simp add: words_of_dropWhile s'_def)
  next
    case False
    then have "trim (collapse_ws s) = rev (dropWhile white_space (rev (collapse_ws s)))"
      using Cons by (simp add: trim_def)
    then show ?thesis using Cons False by (simp add: rtrim_collapse del: collapse_ws.simps words_of.simps)
  qed
qed

lemma word_char_space [simp]: "\<not> word_char CHR '' ''"
  by (simp add: word_char_def)

lemma remove_articles_space:
  "remove_articles pw (CHR '' '' # cs) = CHR '' '' # remove_articles False cs"
  by (simp add: articles_def)

lemma match_alt_word:
  assumes w: "w \<noteq> []" "\<forall>c \<in> set w. word_char c"
    and r: "r = [] \<or> \<not> word_char (hd r)"
  shows "match_alt articles (w @ r) = (if w \<in> set articles then Some r else None)"
proof -
  have wc: "word_char CHR ''t''" "word_char CHR ''h''" "word_char CHR ''e''"
    "word_char CHR ''a''" "word_char CHR ''n''"
    by (simp_all add: word_char_def)
  consider (1) c1 where "w = [c1]" | (2) c1 c2 where "w = [c1, c2]"
    | (3) c1 c2 c3 where "w = [c1, c2, c3]"
    | (4) c1 c2 c3 c4 w' where "w = c1 # c2 # c3 # c4 # w'"
    using w(1) by (cases w rule: list.exhaust[case_names Nil Cons];
        metis list.exhaust)
  then show ?thesis
  proof cases
    case 1
    then show ?thesis using r wc
      by (cases r) (auto simp: articles_def word_boundary_def)
  next
    case 2
    then show ?thesis using r wc w(2)
      by (cases r) (auto simp: articles_def word_boundary_def)
  next
    case 3
    then show ?thesis using r wc w(2)
      by (cases r) (auto simp: articles_def word_boundary_def)
  next
    case 4
    then show ?thesis using r wc w(2)
      by (cases r) (auto simp: articles_def word_boundary_def)
  qed
qed

lemma remove_articles_inside_word:
  "\<forall>c \<in> set u. word_char c \<Longrightarrow> remove_articles True (u @ r) = u @ remove_articles True r"
  by (induction u) (simp_all add: word_boundary_def)

lemma words_of_append_word:
  assumes "w \<noteq> []" "\<forall>c \<in> set w. \<not> white_space c" "Y = [] \<or> white_space (hd Y)"
  shows "words_of (w @ Y) = w # words_of Y"
proof -
  obtain c w' where w: "w = c # w'" using assms(1) by (cases w) auto
  have t: "takeWhile (\<lambda>d. \<not> white_space d) (w' @ Y) = w'"
    using assms(2,3) w by (cases Y) (auto simp: takeWhile_append2)
  have d: "dropWhile (\<lambda>d. \<not> white_space d) (w' @ Y) = Y"
    using assms(2,3) w by (cases Y) (auto simp: dropWhile_append2)
  show ?thesis using assms(2) t d unfolding w by simp
qed

lemma words_of_remove_articles:
  assumes "\<forall>c \<in> set s. lower_alnum_space c" "pw \<longrightarrow> s = [] \<or> hd s = CHR '' ''"
  shows "words_of (remove_articles pw s) = filter (\<lambda>w. w \<notin> set articles) (words_of s)"
  using assms
proof (induction s arbitrary: pw rule: length_induct)
  case (1 s)
  show ?case
  proof (cases s)
    case Nil
    then show ?thesis by simp
  next
    case (Cons c cs)
    have good_cs: "\<forall>c \<in> set cs. lower_alnum_space c"
      using "1.prems"(1) Cons by simp
    show ?thesis
    proof (cases "c = CHR '' ''")
      case True
      have "words_of (remove_articles False cs) = filter (\<lambda>w. w \<notin> set articles) (words_of cs)"
        using "1.IH" Cons good_cs by simp
      then show ?thesis
        using Cons True by (simp add: remove_articles_space del: remove_articles.simps)
    next
      case False
      with "1.prems"(2) Cons have pw: "pw = False" by simp
      have c: "word_char c" "\<not> white_space c"
        using "1.prems"(1) Cons False by (simp_all add: alnum_word_char alnum_white_space)
      define w' where "w' = takeWhile (\<lambda>d. \<not> white_space d) cs"
      define r where "r = dropWhile (\<lambda>d. \<not> white_space d) cs"
      have cs: "cs = w' @ r" by (simp add: w'_def r_def)
      have s: "s = (c # w') @ r" using Cons cs by simp
      have good_r: "\<forall>c \<in> set r. lower_alnum_space c"
        using good_cs cs by auto
      have w'_nws: "\<forall>d \<in> set w'. \<not> white_space d"
        unfolding w'_def by (auto dest: set_takeWhileD)
      have w'_word: "\<forall>d \<in> set w'. word_char d"
        using w'_nws good_cs cs by (auto simp: alnum_word_char alnum_white_space)
      have hd_r: "r = [] \<or> white_space (hd r)"
        unfolding r_def by (rule dropWhile_not_ws_head)
      then have hd_r_sp: "r = [] \<or> hd r = CHR '' ''"
        using good_r by (cases r) (auto simp: alnum_white_space)
      then have hd_r_nw: "r = [] \<or> \<not> word_char (hd r)"
        by auto
      have len_r: "length r < length s"
        using s by simp
      have IH: "words_of (remove_articles True r) = filter (\<lambda>w. w \<notin> set articles) (words_of r)"
        using "1.IH" len_r good_r hd_r_sp by blast
      have ws: "words_of s = (c # w') # words_of r"
        using Cons c by (simp add: w'_def r_def)
      have m: "match_alt articles (c # cs) =
                 (if c # w' \<in> set articles then Some r else None)"
        using match_alt_word[of "c # w'" r] c w'_word hd_r_nw cs by simp
      show ?thesis
      proof (cases "c # w' \<in> set articles")
        case True
        then have "remove_articles pw s = remove_articles True r"
          using Cons pw c m by (simp add: word_boundary_def)
        then show ?thesis using IH ws True by simp
      next
        case False
        then have "remove_articles pw s = c # remove_articles True cs"
          using Cons pw c m by (simp add: word_boundary_def)
        also have "\<dots> = (c # w') @ remove_articles True r"
          unfolding cs using remove_articles_inside_word[OF w'_word] by simp
        finally have ra: "remove_articles pw s = (c # w') @ remove_articles True r" .
        have Y: "remove_articles True r = [] \<or> white_space (hd (remove_articles True r))"
          using hd_r_sp by (cases r) (auto simp: remove_articles_space simp del: remove_articles.simps(2))
        have "words_of (remove_articles pw s) = (c # w') # words_of (remove_articles True r)"
          unfolding ra by (rule words_of_append_word[OF _ _ Y]) (use c w'_nws in auto)
        then show ?thesis using IH ws False by simp
      qed
    qed
  qed
qed

lemma normalize_eq_spec: "normalize s = normalize_spec s"
  unfolding normalize_def normalize_spec_def trim_collapse
  by (rule arg_cong[where f = unwords], rule words_of_remove_articles)
     (simp_all add: strip_symbols_def)

subsection \<open>checkGuess\<close>

lemma includes_str_sublist: "includes_str s t \<longleftrightarrow> sublist t s"
  by (induction s) (simp_all add: sublist_Cons_right)

text \<open>
  Claim C1. For every guess and answer, \<open>checkGuess\<close> returns the six-step reference
  classification of the normalized strings: empty guess is wrong with similarity 0; equal
  strings are correct with similarity 1; edit distance at most 2 (answer of length at most
  6) or 3 is correct with similarity 1 - distance / max length; one string a substring of
  the other is correct with similarity 9/10; similarity at least 6/10 is partial; anything
  else is wrong. Normalization is: lower case, keep \<open>[a-z0-9 ]\<close>, drop the words
  the, a, an, join the remaining words by single spaces. By \<open>edit_distance_is_least\<close> the
  distance is the least number of single-character insertions, deletions and substitutions.
\<close>

theorem checkGuess_reference:
  "checkGuess guess ans = classify_reference (normalize_spec guess) (normalize_spec ans)"
  by (simp add: checkGuess_def classify_reference_def Let_def normalize_eq_spec
      levenshtein_edit_distance includes_str_sublist)

theorem checkGuess_reference_witness:
  "checkGuess ''eifel tower'' ''The Eiffel Tower'' = \<lparr>match = Correct, similarity = 11 / 12\<rparr> \<and>
   classify_reference (normalize_spec ''eifel tower'') (normalize_spec ''The Eiffel Tower'')
     = \<lparr>match = Correct, similarity = 11 / 12\<rparr>"
proof -
  have "checkGuess ''eifel tower'' ''The Eiffel Tower'' = \<lparr>match = Correct, similarity = 11 / 12\<rparr>"
    by code_simp
  then show ?thesis
    using checkGuess_reference[of "''eifel tower''" "''The Eiffel Tower''"] by simp
qed

lemma edit_distance_le_max: "edit_distance xs ys \<le> max (length xs) (length ys)"
  by (induction xs ys rule: edit_distance.induct) (auto simp: min_le_iff_disj)

lemma checkGuess_similarity_range:
  "0 \<le> similarity (checkGuess guess ans) \<and> similarity (checkGuess guess ans) \<le> 1"
proof -
  have "real (edit_distance g a) / real (max (length g) (length a)) \<le> 1" for g a :: string
    using edit_distance_le_max[of g a]
    by (cases "max (length g) (length a) = 0") (auto simp: divide_le_eq_1)
  moreover have "0 \<le> real (edit_distance g a) / real (max (length g) (length a))" for g a :: string
    by simp
  ultimately show ?thesis
    unfolding checkGuess_reference classify_reference_def
    by (simp add: Let_def)
qed

subsection \<open>calcScore\<close>

lemma Math_round_nearest:
  "real_of_int (Math_round x) - 1 / 2 \<le> x \<and> x < real_of_int (Math_round x) + 1 / 2"
  unfolding Math_round_def by linarith






section \<open>Properties of the handlers\<close>

lemma clearTimers_eq:
  "clearTimers room s =
     (room\<lparr>roundTimer := None, hintTimers := []\<rparr>, s\<lparr>pending := cleared room s\<rparr>)"
proof -
  have "fold clearTimeout ts s0 = s0\<lparr>pending := (\<lambda>t. if t \<in> set ts then None else pending s0 t)\<rparr>"
    for ts s0
    by (induction ts arbitrary: s0) (auto simp: clearTimeout_def fun_eq_iff)
  then show ?thesis
    by (auto simp: clearTimers_def Let_def cleared_def tracks_def clearTimeout_def fun_eq_iff
        split: option.splits)
qed

lemma startRound_SomeD:
  assumes "startRound ref now room s = Some (room', s', evs)"
  shows "room' = room\<lparr>roundStartTime := Some now, roundAnswered := {},
               players := map (\<lambda>(k, p). (k, p\<lparr>guessedThisRound := False\<rparr>)) (players room),
               roundTimer := Some (Suc (Suc (nextTimer s))),
               hintTimers := [nextTimer s, Suc (nextTimer s)]\<rparr>"
    and "nextTimer s' = Suc (Suc (Suc (nextTimer s)))"
    and "\<And>t. t < nextTimer s \<or> Suc (Suc (nextTimer s)) < t \<Longrightarrow> pending s' t = cleared room s t"
    and "\<And>t tm. nextTimer s \<le> t \<Longrightarrow> t \<le> Suc (Suc (nextTimer s)) \<Longrightarrow> pending s' t = Some tm
            \<Longrightarrow> cb_room (callback tm) = Some ref"
    and "currentRound room < length (puzzles room)"
  using assms
  by (auto simp: startRound_def Let_def clearTimers_eq setTimeout_def cb_room_def
      cleared_def tracks_def split: if_splits)

lemma endRound_SomeD:
  assumes "endRound ref now room s = Some (room', s', evs)"
  shows "room' = room\<lparr>roundTimer := Some (nextTimer s), hintTimers := []\<rparr>"
    and "nextTimer s' = Suc (nextTimer s)"
    and "\<And>t. t \<noteq> nextTimer s \<Longrightarrow> pending s' t = cleared room s t"
    and "\<And>tm. pending s' (nextTimer s) = Some tm \<Longrightarrow> cb_room (callback tm) = Some ref"
    and "currentRound room < length (puzzles room)"
  using assms
  by (auto simp: endRound_def Let_def clearTimers_eq setTimeout_def cb_room_def
      split: if_splits)

lemma endGame_eq:
  "endGame room s =
     (room\<lparr>roundTimer := None, hintTimers := [], state := Finished\<rparr>,
      s\<lparr>pending := cleared room s\<rparr>,
      [(ToRoom (code room), GameOver (getLeaderboard (room\<lparr>roundTimer := None, hintTimers := [], state := Finished\<rparr>)))])"
  by (simp add: endGame_def clearTimers_eq Let_def)

lemma put_room_simps [simp]:
  "heap (put_room ref room w) = (heap w)(ref \<mapsto> room)"
  "rooms (put_room ref room w) = rooms w"
  "sockets (put_room ref room w) = sockets w"
  "sched (put_room ref room w) = sched w"
  "nextRef (put_room ref room w) = nextRef w"
  by (simp_all add: put_room_def)

lemma set_update_subset: "set (AList.update k v al) \<subseteq> insert (k, v) (set al)"
  by (induction al) auto

lemma ids_ok_update: "ids_ok ps \<Longrightarrow> p_id p = k \<Longrightarrow> ids_ok (AList.update k p ps)"
  using set_update_subset[of k p ps] by (auto simp: ids_ok_def)

lemma ids_ok_map:
  "ids_ok ps \<Longrightarrow> (\<And>p. p_id (f p) = p_id p) \<Longrightarrow> ids_ok (map (\<lambda>(k, p). (k, f p)) ps)"
  by (auto simp: ids_ok_def)

lemma ids_ok_map_of: "ids_ok ps \<Longrightarrow> map_of ps k = Some p \<Longrightarrow> p_id p = k"
  by (auto simp: ids_ok_def dest!: map_of_SomeD)

lemma fst_set_reset [simp]:
  "fst ` set (map (\<lambda>(k, p). (k, f p)) ps) = fst ` set ps"
  by (induction ps) auto

lemma fst_image_reset [simp]: "fst ` (\<lambda>(k, p). (k, f p)) ` A = fst ` A"
  by force

lemma room_ok_update:
  "room_ok room \<Longrightarrow> p_id p = k \<Longrightarrow> room_ok (room\<lparr>players := AList.update k p (players room)\<rparr>)"
  by (auto simp: room_ok_def dom_update ids_ok_update)

lemma room_ok_scored:
  "room_ok room \<Longrightarrow> map_of (players room) k = Some p \<Longrightarrow> room_ok (scored_room k p n room)"
  by (auto simp: room_ok_def scored_room_def dom_update intro!: ids_ok_update dest: ids_ok_map_of)

lemma room_ok_new: "room_ok (new_room c)"
  by (simp add: room_ok_def new_room_def ids_ok_def)

lemma inv_sockets [simp]: "inv (w\<lparr>sockets := x\<rparr>) = inv w"
  by (simp add: inv_def inv_refs_def inv_answered_def inv_timers_def)

lemma inv_init: "inv init_world"
  by (simp add: inv_def inv_refs_def inv_answered_def inv_timers_def init_world_def)

lemma inv_room_update:
  assumes "inv w" "heap w ref = Some room"
    and "roundTimer room' = roundTimer room" "hintTimers room' = hintTimers room"
    and "room_ok room'"
  shows "inv (put_room ref room' w)"
proof -
  have t: "tracks room' t = tracks room t" for t
    using assms(3,4) by (simp add: tracks_def)
  from assms(1) have r: "inv_refs w" and a: "inv_answered w" and ti: "inv_timers w"
    by (simp_all add: inv_def)
  have "inv_refs (put_room ref room' w)"
    using r assms(2) by (auto simp: inv_refs_def)
  moreover have "inv_answered (put_room ref room' w)"
    using a assms(5) by (auto simp: inv_answered_def)
  moreover have "inv_timers (put_room ref room' w)"
    using ti assms(2) t unfolding inv_timers_def
    by (simp add: put_room_def) (metis option.inject)
  ultimately show ?thesis by (simp add: inv_def)
qed

lemma inv_clearTimeout:
  assumes "inv w"
  shows "inv (w\<lparr>sched := clearTimeout t (sched w)\<rparr>)"
  using assms
  by (auto simp: inv_def inv_refs_def inv_answered_def inv_timers_def clearTimeout_def
      split: if_splits)

lemma inv_add_reap:
  assumes "inv w"
  shows "inv (w\<lparr>sched := snd (setTimeout (ReapCb c) d now (sched w))\<rparr>)"
  using assms
  by (auto simp: inv_def inv_refs_def inv_answered_def inv_timers_def setTimeout_def cb_room_def
      less_Suc_eq split: if_splits)

lemma cleared_SomeD: "cleared room s t = Some tm \<Longrightarrow> \<not> tracks room t \<and> pending s t = Some tm"
  by (simp add: cleared_def split: if_splits)

lemma inv_timersI:
  assumes "\<And>t tm. pending (sched w) t = Some tm \<Longrightarrow> t < nextTimer (sched w)"
    and "\<And>t tm ref. pending (sched w) t = Some tm \<Longrightarrow> cb_room (callback tm) = Some ref
           \<Longrightarrow> \<exists>room. heap w ref = Some room \<and> tracks room t"
    and "\<And>ref room t. heap w ref = Some room \<Longrightarrow> tracks room t \<Longrightarrow> t < nextTimer (sched w)"
  shows "inv_timers w"
  unfolding inv_timers_def using assms by blast

lemma inv_timersD:
  assumes "inv_timers w"
  shows "\<And>t tm. pending (sched w) t = Some tm \<Longrightarrow> t < nextTimer (sched w)"
    and "\<And>t tm ref. pending (sched w) t = Some tm \<Longrightarrow> cb_room (callback tm) = Some ref
           \<Longrightarrow> \<exists>room. heap w ref = Some room \<and> tracks room t"
    and "\<And>ref room t. heap w ref = Some room \<Longrightarrow> tracks room t \<Longrightarrow> t < nextTimer (sched w)"
  using assms unfolding inv_timers_def by blast+

lemma inv_startRound:
  assumes i: "inv w" and h: "heap w ref = Some room0"
    and tr: "roundTimer room = roundTimer room0" "hintTimers room = hintTimers room0"
    and ok: "room_ok room"
    and sr: "startRound ref now room (sched w) = Some (room', s', evs)"
  shows "inv ((put_room ref room' w)\<lparr>sched := s'\<rparr>)"
proof -
  let ?n = "nextTimer (sched w)"
  let ?w' = "(put_room ref room' w)\<lparr>sched := s'\<rparr>"
  note D = startRound_SomeD[OF sr]
  from i have r: "inv_refs w" and a: "inv_answered w" and ti: "inv_timers w"
    by (simp_all add: inv_def)
  note T = inv_timersD[OF ti]
  have tk: "tracks room t = tracks room0 t" for t
    using tr by (simp add: tracks_def)
  have tk': "tracks room' t \<longleftrightarrow> t = ?n \<or> t = Suc ?n \<or> t = Suc (Suc ?n)" for t
    unfolding D(1) by (auto simp: tracks_def)
  have "inv_refs ?w'"
    using r h by (auto simp: inv_refs_def)
  moreover have "inv_answered ?w'"
    using a ok unfolding D(1)
    by (auto simp: inv_answered_def room_ok_def intro!: ids_ok_map)
  moreover have "inv_timers ?w'"
  proof (rule inv_timersI)
    fix t tm assume p: "pending (sched ?w') t = Some tm"
    show "t < nextTimer (sched ?w')"
    proof (cases "t < ?n \<or> Suc (Suc ?n) < t")
      case True
      with p D(3)[of t] have "pending (sched w) t = Some tm"
        by (auto dest: cleared_SomeD)
      from T(1)[OF this] show ?thesis by (simp add: D(2))
    next
      case False
      then show ?thesis by (simp add: D(2))
    qed
  next
    fix t tm ref0
    assume p: "pending (sched ?w') t = Some tm" and c: "cb_room (callback tm) = Some ref0"
    show "\<exists>room. heap ?w' ref0 = Some room \<and> tracks room t"
    proof (cases "t < ?n \<or> Suc (Suc ?n) < t")
      case True
      with p D(3)[of t] have q: "pending (sched w) t = Some tm" "\<not> tracks room t"
        by (auto dest: cleared_SomeD)
      from T(2)[OF q(1) c] obtain room1 where r1: "heap w ref0 = Some room1" "tracks room1 t"
        by blast
      with q(2) tk h have "ref0 \<noteq> ref" by auto
      with r1 show ?thesis by simp
    next
      case False
      then have le: "?n \<le> t" "t \<le> Suc (Suc ?n)" by auto
      from D(4)[OF le] p c have "ref0 = ref" by simp
      moreover have "tracks room' t" using le by (auto simp: tk')
      ultimately show ?thesis by simp
    qed
  next
    fix ref1 room1 t
    assume h1: "heap ?w' ref1 = Some room1" and t1: "tracks room1 t"
    show "t < nextTimer (sched ?w')"
    proof (cases "ref1 = ref")
      case True
      with h1 have "room1 = room'" by simp
      with t1 have "tracks room' t" by simp
      then show ?thesis by (auto simp: tk' D(2))
    next
      case False
      with h1 have "heap w ref1 = Some room1" by simp
      from T(3)[OF this t1] show ?thesis by (simp add: D(2))
    qed
  qed
  ultimately show ?thesis by (simp add: inv_def)
qed

lemma inv_endRound:
  assumes i: "inv w" and h: "heap w ref = Some room0"
    and tr: "roundTimer room = roundTimer room0" "hintTimers room = hintTimers room0"
    and ans: "room_ok room"
    and er: "endRound ref now room (sched w) = Some (room', s', evs)"
  shows "inv ((put_room ref room' w)\<lparr>sched := s'\<rparr>)"
proof -
  let ?n = "nextTimer (sched w)"
  let ?w' = "(put_room ref room' w)\<lparr>sched := s'\<rparr>"
  note D = endRound_SomeD[OF er]
  from i have r: "inv_refs w" and a: "inv_answered w" and ti: "inv_timers w"
    by (simp_all add: inv_def)
  note T = inv_timersD[OF ti]
  have tk: "tracks room t = tracks room0 t" for t
    using tr by (simp add: tracks_def)
  have tk': "tracks room' t \<longleftrightarrow> t = ?n" for t
    unfolding D(1) by (auto simp: tracks_def)
  have "inv_refs ?w'"
    using r h by (auto simp: inv_refs_def)
  moreover have "inv_answered ?w'"
    using a ans unfolding D(1) by (auto simp: inv_answered_def room_ok_def)
  moreover have "inv_timers ?w'"
  proof (rule inv_timersI)
    fix t tm assume p: "pending (sched ?w') t = Some tm"
    show "t < nextTimer (sched ?w')"
    proof (cases "t = ?n")
      case False
      with p D(3)[of t] have "pending (sched w) t = Some tm"
        by (auto dest: cleared_SomeD)
      from T(1)[OF this] show ?thesis by (simp add: D(2))
    next
      case True
      then show ?thesis by (simp add: D(2))
    qed
  next
    fix t tm ref0
    assume p: "pending (sched ?w') t = Some tm" and c: "cb_room (callback tm) = Some ref0"
    show "\<exists>room. heap ?w' ref0 = Some room \<and> tracks room t"
    proof (cases "t = ?n")
      case False
      with p D(3)[of t] have q: "pending (sched w) t = Some tm" "\<not> tracks room t"
        by (auto dest: cleared_SomeD)
      from T(2)[OF q(1) c] obtain room1 where r1: "heap w ref0 = Some room1" "tracks room1 t"
        by blast
      with q(2) tk h have "ref0 \<noteq> ref" by auto
      with r1 show ?thesis by simp
    next
      case True
      with D(4) p c have "ref0 = ref" by simp
      moreover have "tracks room' t" using True by (simp add: tk')
      ultimately show ?thesis by simp
    qed
  next
    fix ref1 room1 t
    assume h1: "heap ?w' ref1 = Some room1" and t1: "tracks room1 t"
    show "t < nextTimer (sched ?w')"
    proof (cases "ref1 = ref")
      case True
      with h1 have "room1 = room'" by simp
      with t1 have "tracks room' t" by simp
      then show ?thesis by (auto simp: tk' D(2))
    next
      case False
      with h1 have "heap w ref1 = Some room1" by simp
      from T(3)[OF this t1] show ?thesis by (simp add: D(2))
    qed
  qed
  ultimately show ?thesis by (simp add: inv_def)
qed

text \<open>Clearing the timers of a room, whatever else changes in the room but its players.\<close>

lemma inv_cleared:
  assumes i: "inv w" and h: "heap w ref = Some room0"
    and tr: "roundTimer room = roundTimer room0" "hintTimers room = hintTimers room0"
    and r': "roundTimer room' = None" "hintTimers room' = []" "room_ok room'"
  shows "inv ((put_room ref room' w)\<lparr>sched := (sched w)\<lparr>pending := cleared room (sched w)\<rparr>\<rparr>)"
proof -
  let ?w' = "(put_room ref room' w)\<lparr>sched := (sched w)\<lparr>pending := cleared room (sched w)\<rparr>\<rparr>"
  from i have r: "inv_refs w" and a: "inv_answered w" and ti: "inv_timers w"
    by (simp_all add: inv_def)
  note T = inv_timersD[OF ti]
  have tk: "tracks room t = tracks room0 t" for t
    using tr by (simp add: tracks_def)
  have tk': "\<not> tracks room' t" for t
    using r' by (simp add: tracks_def)
  have "inv_refs ?w'"
    using r h by (auto simp: inv_refs_def)
  moreover have "inv_answered ?w'"
    using a r'(3) by (auto simp: inv_answered_def)
  moreover have "inv_timers ?w'"
  proof (rule inv_timersI)
    fix t tm assume p: "pending (sched ?w') t = Some tm"
    then have "pending (sched w) t = Some tm" by (auto dest: cleared_SomeD)
    from T(1)[OF this] show "t < nextTimer (sched ?w')" by simp
  next
    fix t tm ref0
    assume p: "pending (sched ?w') t = Some tm" and c: "cb_room (callback tm) = Some ref0"
    then have q: "pending (sched w) t = Some tm" "\<not> tracks room t"
      by (auto dest: cleared_SomeD)
    from T(2)[OF q(1) c] obtain room1 where r1: "heap w ref0 = Some room1" "tracks room1 t"
      by blast
    with q(2) tk h have "ref0 \<noteq> ref" by auto
    with r1 show "\<exists>room. heap ?w' ref0 = Some room \<and> tracks room t" by simp
  next
    fix ref1 room1 t
    assume h1: "heap ?w' ref1 = Some room1" and t1: "tracks room1 t"
    then have "ref1 \<noteq> ref" using tk' by auto
    with h1 have "heap w ref1 = Some room1" by simp
    from T(3)[OF this t1] show "t < nextTimer (sched ?w')" by simp
  qed
  ultimately show ?thesis by (simp add: inv_def)
qed

lemma inv_rooms_delete:
  "inv w \<Longrightarrow> inv (w\<lparr>rooms := (rooms w)(c := None)\<rparr>)"
  by (auto simp: inv_def inv_refs_def inv_answered_def inv_timers_def)

lemma inv_create_room: "inv w \<Longrightarrow> inv (fst (create_room rs w))"
  unfolding inv_def
proof (intro conjI)
  assume i: "inv_refs w \<and> inv_answered w \<and> inv_timers w"
  let ?w' = "fst (create_room rs w)"
  have fresh: "heap w (nextRef w) = None"
    using i by (auto simp: inv_refs_def)
  show "inv_refs ?w'"
    using i by (auto simp: inv_refs_def create_room_def Let_def less_Suc_eq)
  show "inv_answered ?w'"
    using i by (auto simp: inv_answered_def create_room_def Let_def room_ok_new)
  show "inv_timers ?w'"
  proof (rule inv_timersI)
    fix t tm assume "pending (sched ?w') t = Some tm"
    then show "t < nextTimer (sched ?w')"
      using i by (auto simp: inv_timers_def create_room_def Let_def)
  next
    fix t tm ref0
    assume "pending (sched ?w') t = Some tm" "cb_room (callback tm) = Some ref0"
    then obtain room1 where "heap w ref0 = Some room1" "tracks room1 t"
      using i unfolding inv_timers_def by (simp add: create_room_def Let_def) blast
    with fresh show "\<exists>room. heap ?w' ref0 = Some room \<and> tracks room t"
      by (auto simp: create_room_def Let_def)
  next
    fix ref1 room1 t
    assume "heap ?w' ref1 = Some room1" "tracks room1 t"
    then show "t < nextTimer (sched ?w')"
      using i unfolding inv_timers_def
      by (auto simp: create_room_def Let_def new_room_def tracks_def split: if_splits)
  qed
qed

lemma get_room_SomeD:
  "get_room w c = Some (ref, room) \<Longrightarrow> rooms w c = Some ref \<and> heap w ref = Some room"
  by (auto simp: get_room_def split: option.splits)

lemma inv_answeredD:
  "inv w \<Longrightarrow> heap w ref = Some room \<Longrightarrow> room_ok room"
  by (auto simp: inv_def inv_answered_def)

lemma inv_upload: "inv w \<Longrightarrow> inv (fst (upload c pz w))"
proof (cases "get_room w c")
  case None
  assume "inv w"
  with None show ?thesis by (simp add: upload_def)
next
  case (Some a)
  assume i: "inv w"
  obtain ref room where a: "a = (ref, room)" by (cases a)
  from Some a have h: "heap w ref = Some room" by (auto dest: get_room_SomeD)
  from inv_answeredD[OF i h] have sub: "room_ok room" .
  have "inv (put_room ref (room\<lparr>puzzles := pz, totalRounds := int (length pz), state := Lobby\<rparr>) w)"
    by (rule inv_room_update[OF i h]) (use sub in \<open>simp_all add: room_ok_def\<close>)
  with Some a show ?thesis by (simp add: upload_def)
qed

lemma inv_host_join: "inv w \<Longrightarrow> inv (fst (host_join sid c sess w))"
proof (cases "get_room w c")
  case None
  assume "inv w"
  with None show ?thesis by (simp add: host_join_def)
next
  case (Some a)
  assume i: "inv w"
  obtain ref room where a: "a = (ref, room)" by (cases a)
  from Some a have h: "heap w ref = Some room" by (auto dest: get_room_SomeD)
  from inv_answeredD[OF i h] have sub: "room_ok room" .
  have "inv (put_room ref (room\<lparr>hostId := Some sid, hostSessionId := sess\<rparr>) w)"
    by (rule inv_room_update[OF i h]) (use sub in \<open>simp_all add: room_ok_def\<close>)
  with Some a show ?thesis by (simp add: host_join_def)
qed

lemma inv_join_room:
  assumes "inv w" "join_room now sid c nm sess u1 u2 w = Some (w', evs)"
  shows "inv w'"
proof (cases "get_room w (toUpperCase c)")
  case None
  with assms show ?thesis by (simp add: join_room_def Let_def)
next
  case (Some a)
  obtain ref room where a: "a = (ref, room)" by (cases a)
  from Some a have h: "heap w ref = Some room" by (auto dest: get_room_SomeD)
  from inv_answeredD[OF assms(1) h] have sub: "room_ok room" .
  have upd: "inv (put_room ref (room\<lparr>players := AList.update k p (players room)\<rparr>) w)"
    if "p_id p = k" for k p
    by (rule inv_room_update[OF assms(1) h]) (use room_ok_update[OF sub that] in simp_all)
  have upd2: "inv (put_room ref (room\<lparr>players := AList.update k p (players room), sessions := ss\<rparr>) w)"
    if "p_id p = k" for k p ss
    by (rule inv_room_update[OF assms(1) h])
       (use room_ok_update[OF sub that] in \<open>simp_all add: room_ok_def\<close>)
  have sp: "p_id p = k" if "session_player room sess = Some (k, p)" for sess k p
  proof -
    from that have "map_of (players room) k = Some p"
      by (auto simp: session_player_def split: option.splits if_splits)
    with sub show ?thesis by (auto simp: room_ok_def dest: ids_ok_map_of)
  qed
  from assms Some a show ?thesis
    by (auto simp: join_room_def Let_def upd upd2 dest: sp split: if_splits option.splits prod.splits)
qed

lemma inv_start_game:
  assumes "inv w" "start_game now sid c rounds tpr w = Some (w', evs)"
  shows "inv w'"
proof (cases "get_room w c")
  case None
  with assms show ?thesis by (simp add: start_game_def)
next
  case (Some a)
  obtain ref room where a: "a = (ref, room)" by (cases a)
  from Some a have h: "heap w ref = Some room" by (auto dest: get_room_SomeD)
  from inv_answeredD[OF assms(1) h] have sub: "room_ok room" .
  have sr: "inv ((put_room ref room' w)\<lparr>sched := s'\<rparr>)"
    if "startRound ref now (room\<lparr>totalRounds := tr, timePerRound := tp, currentRound := 0,
            state := Playing,
            players := map (\<lambda>(k, p). (k, p\<lparr>score := 0, guessedThisRound := False\<rparr>)) (players room)\<rparr>)
          (sched w) = Some (room', s', evs')"
    for room' s' evs' tr tp
    by (rule inv_startRound[OF assms(1) h _ _ _ that])
       (use sub in \<open>simp_all add: room_ok_def ids_ok_map\<close>)
  from assms Some a show ?thesis
    by (auto simp: start_game_def Let_def sr split: if_splits option.splits)
qed

lemma inv_next_round:
  assumes "inv w" "next_round now sid c w = Some (w', evs)"
  shows "inv w'"
proof (cases "get_room w c")
  case None
  with assms show ?thesis by (simp add: next_round_def)
next
  case (Some a)
  obtain ref room where a: "a = (ref, room)" by (cases a)
  from Some a have h: "heap w ref = Some room" by (auto dest: get_room_SomeD)
  from inv_answeredD[OF assms(1) h] have sub: "room_ok room" .
  have eg: "inv ((put_room ref (room\<lparr>roundTimer := None, hintTimers := [], state := Finished\<rparr>) w)
                  \<lparr>sched := (sched w)\<lparr>pending := cleared room (sched w)\<rparr>\<rparr>)"
    by (rule inv_cleared[OF assms(1) h]) (use sub in \<open>simp_all add: room_ok_def\<close>)
  have sr: "inv ((put_room ref room' w)\<lparr>sched := s'\<rparr>)"
    if "startRound ref now (room\<lparr>currentRound := currentRound room + 1\<rparr>) (sched w) = Some (room', s', evs')"
    for room' s' evs'
    by (rule inv_startRound[OF assms(1) h _ _ _ that]) (use sub in \<open>simp_all add: room_ok_def\<close>)
  from assms Some a show ?thesis
    by (auto simp: next_round_def endGame_eq eg sr split: if_splits option.splits)
qed

lemma inv_submit_guess:
  assumes "inv w" "submit_guess now sid c g w = Some (w', evs)"
  shows "inv w'"
proof (cases "get_room w c")
  case None
  with assms show ?thesis by (simp add: submit_guess_def)
next
  case (Some a)
  obtain ref room where a: "a = (ref, room)" by (cases a)
  from Some a have h: "heap w ref = Some room" by (auto dest: get_room_SomeD)
  from inv_answeredD[OF assms(1) h] have sub: "room_ok room" .
  note sub1 = room_ok_scored[OF sub]
  have nr: "inv (put_room ref (scored_room k p n room) w)"
    if "map_of (players room) k = Some p" for k p n
    by (rule inv_room_update[OF assms(1) h _ _ sub1[OF that]]) (simp_all add: scored_room_def)
  have er: "inv ((put_room ref room' w)\<lparr>sched := s'\<rparr>)"
    if "endRound ref now (scored_room k p n room) (sched w) = Some (room', s', evs')"
      "map_of (players room) k = Some p"
    for room' s' evs' k p n
    by (rule inv_endRound[OF assms(1) h _ _ sub1[OF that(2)] that(1)]) (simp_all add: scored_room_def)
  from assms Some a show ?thesis
    by (auto simp: submit_guess_def Let_def nr er split: if_splits option.splits)
qed

lemma mark_offline_fields:
  "roundTimer (fst (mark_offline c k room)) = roundTimer room"
  "hintTimers (fst (mark_offline c k room)) = hintTimers room"
  "roundAnswered (fst (mark_offline c k room)) = roundAnswered room"
  "fst ` set (players room) \<subseteq> fst ` set (players (fst (mark_offline c k room)))"
  "state (fst (mark_offline c k room)) = state room"
  "currentRound (fst (mark_offline c k room)) = currentRound room"
  "puzzles (fst (mark_offline c k room)) = puzzles room"
  "totalRounds (fst (mark_offline c k room)) = totalRounds room"
  by (auto simp: mark_offline_def Let_def dom_update split: option.splits)

lemma mark_offline_ok: "room_ok room \<Longrightarrow> room_ok (fst (mark_offline c k room))"
  by (auto simp: mark_offline_def Let_def room_ok_def dom_update split: option.splits
      intro!: ids_ok_update dest: ids_ok_map_of)

lemma transfer_host_ok: "room_ok room \<Longrightarrow> room_ok (fst (transfer_host b room))"
  by (auto simp: transfer_host_def room_ok_def split: list.splits)

lemma transfer_host_fields:
  "roundTimer (fst (transfer_host b room)) = roundTimer room"
  "hintTimers (fst (transfer_host b room)) = hintTimers room"
  "roundAnswered (fst (transfer_host b room)) = roundAnswered room"
  "players (fst (transfer_host b room)) = players room"
  "state (fst (transfer_host b room)) = state room"
  "currentRound (fst (transfer_host b room)) = currentRound room"
  "puzzles (fst (transfer_host b room)) = puzzles room"
  "totalRounds (fst (transfer_host b room)) = totalRounds room"
  by (auto simp: transfer_host_def split: list.splits)

lemma disconnect_shape:
  assumes "s_roomCode (sockets w sid) = Some c" "get_room w c = Some (ref, room)"
  shows "\<exists>r2 s evs. disconnect now sid w = ((put_room ref r2 w)\<lparr>sched := s\<rparr>, evs)
     \<and> roundTimer r2 = roundTimer room \<and> hintTimers r2 = hintTimers room
     \<and> roundAnswered r2 = roundAnswered room
     \<and> fst ` set (players room) \<subseteq> fst ` set (players r2)
     \<and> state r2 = state room \<and> currentRound r2 = currentRound room
     \<and> puzzles r2 = puzzles room \<and> totalRounds r2 = totalRounds room
     \<and> (room_ok room \<longrightarrow> room_ok r2)
     \<and> (s = sched w \<or> s = snd (setTimeout (ReapCb c) (10 * 60 * 1000) now (sched w)))"
proof -
  let ?r1 = "fst (mark_offline c (s_playerId (sockets w sid)) room)"
  let ?r2 = "fst (transfer_host (s_isHost (sockets w sid)) ?r1)"
  define s2 where "s2 = (if onlineCount ?r2 = 0 \<and> no_host ?r2
             then snd (setTimeout (ReapCb c) (10 * 60 * 1000) now (sched w)) else sched w)"
  have d: "\<exists>evs. disconnect now sid w = ((put_room ref ?r2 w)\<lparr>sched := s2\<rparr>, evs)"
    using assms by (simp add: disconnect_def Let_def split_beta s2_def)
  have p3: "s2 = sched w \<or> s2 = snd (setTimeout (ReapCb c) (10 * 60 * 1000) now (sched w))"
    by (simp add: s2_def)
  have ok: "room_ok room \<longrightarrow> room_ok ?r2"
    by (simp add: mark_offline_ok transfer_host_ok)
  from d obtain evs where "disconnect now sid w = ((put_room ref ?r2 w)\<lparr>sched := s2\<rparr>, evs)" ..
  with p3 ok show ?thesis
    by (intro exI[of _ ?r2] exI[of _ s2] exI[of _ evs])
       (simp only: transfer_host_fields mark_offline_fields simp_thms)
qed

lemma inv_disconnect: "inv w \<Longrightarrow> inv (fst (disconnect now sid w))"
proof -
  assume i: "inv w"
  show ?thesis
  proof (cases "s_roomCode (sockets w sid)")
    case None
    with i show ?thesis by (simp add: disconnect_def)
  next
    case (Some c)
    show ?thesis
    proof (cases "get_room w c")
      case None
      with i Some show ?thesis by (simp add: disconnect_def)
    next
      case (Some a)
      obtain ref room where a: "a = (ref, room)" by (cases a)
      from Some a have g: "get_room w c = Some (ref, room)" by simp
      then have h: "heap w ref = Some room" by (auto dest: get_room_SomeD)
      from inv_answeredD[OF i h] have sub: "room_ok room" .
      from disconnect_shape[OF \<open>s_roomCode (sockets w sid) = Some c\<close> g, of now]
      obtain r2 s evs where d: "disconnect now sid w = ((put_room ref r2 w)\<lparr>sched := s\<rparr>, evs)"
        and r2: "roundTimer r2 = roundTimer room" "hintTimers r2 = hintTimers room"
          "room_ok room \<longrightarrow> room_ok r2"
        and s: "s = sched w \<or> s = snd (setTimeout (ReapCb c) (10 * 60 * 1000) now (sched w))"
        by blast
      have 1: "inv (put_room ref r2 w)"
        by (rule inv_room_update[OF i h r2(1,2)]) (use sub r2(3) in auto)
      from s have "inv ((put_room ref r2 w)\<lparr>sched := s\<rparr>)"
      proof
        assume "s = sched w"
        with 1 show ?thesis by (simp add: put_room_def)
      next
        assume "s = snd (setTimeout (ReapCb c) (10 * 60 * 1000) now (sched w))"
        with inv_add_reap[OF 1, of c "10 * 60 * 1000" now] show ?thesis by simp
      qed
      with d show ?thesis by simp
    qed
  qed
qed

lemma put_room_sched [simp]:
  "(put_room ref room (w\<lparr>sched := s0\<rparr>))\<lparr>sched := s1\<rparr> = (put_room ref room w)\<lparr>sched := s1\<rparr>"
  by (simp add: put_room_def)

lemma inv_fire:
  assumes i: "inv w" and f: "fire now t w = Some (w', evs)"
  shows "inv w'"
proof (cases "pending (sched w) t")
  case None
  with assms show ?thesis by (simp add: fire_def)
next
  case (Some tm)
  show ?thesis
  proof (cases "now < due tm")
    case True
    with assms Some show ?thesis by (simp add: fire_def)
  next
    case False
    let ?s0 = "clearTimeout t (sched w)"
    let ?w0 = "w\<lparr>sched := ?s0\<rparr>"
    have i0: "inv ?w0" by (rule inv_clearTimeout[OF i])
    have er: "inv ((put_room ref room1 w)\<lparr>sched := s1\<rparr>)"
      if "heap w ref = Some room" "endRound ref now room ?s0 = Some (room1, s1, evs1)"
      for ref room room1 s1 evs1
    proof -
      have h: "heap ?w0 ref = Some room" using that(1) by simp
      have e: "endRound ref now room (sched ?w0) = Some (room1, s1, evs1)" using that(2) by simp
      from inv_endRound[OF i0 h refl refl inv_answeredD[OF i0 h] e] show ?thesis by simp
    qed
    have sr: "inv ((put_room ref room1 w)\<lparr>sched := s1\<rparr>)"
      if "heap w ref = Some room"
        "startRound ref now (room\<lparr>currentRound := currentRound room + 1\<rparr>) ?s0 = Some (room1, s1, evs1)"
      for ref room room1 s1 evs1
    proof -
      have h: "heap ?w0 ref = Some room" using that(1) by simp
      have e: "startRound ref now (room\<lparr>currentRound := currentRound room + 1\<rparr>) (sched ?w0)
                = Some (room1, s1, evs1)" using that(2) by simp
      have "room_ok (room\<lparr>currentRound := currentRound room + 1\<rparr>)"
        using inv_answeredD[OF i0 h] by (simp add: room_ok_def)
      from inv_startRound[OF i0 h _ _ this e] show ?thesis by simp
    qed
    have cl: "inv ((put_room ref room' w)\<lparr>sched := ?s0\<lparr>pending := cleared room ?s0\<rparr>\<rparr>)"
      if "heap w ref = Some room" "roundTimer room' = None" "hintTimers room' = []"
        "roundAnswered room' = roundAnswered room" "players room' = players room"
      for ref room room'
    proof -
      have h: "heap ?w0 ref = Some room" using that(1) by simp
      have "room_ok room'"
        using inv_answeredD[OF i0 h] that(4,5) by (simp add: room_ok_def)
      from inv_cleared[OF i0 h refl refl that(2,3) this] show ?thesis by simp
    qed
    show ?thesis
    proof (cases "callback tm")
      case (HintCb ref level msg)
      with f Some False i0 show ?thesis
        by (auto simp: fire_def Let_def split: option.splits)
    next
      case (RoundEndCb ref)
      with f Some False i0 show ?thesis
        by (auto simp: fire_def Let_def er split: option.splits)
    next
      case (AdvanceCb ref)
      with f Some False i0 show ?thesis
        by (auto simp: fire_def Let_def sr split: option.splits)
    next
      case (EndGameCb ref)
      with f Some False i0 show ?thesis
        by (auto simp: fire_def Let_def endGame_eq cl split: option.splits)
    next
      case (ReapCb c)
      have rp: "inv ((put_room ref (r\<lparr>roundTimer := None, hintTimers := []\<rparr>) w)
                   \<lparr>sched := ?s0\<lparr>pending := cleared r ?s0\<rparr>, rooms := (rooms w)(c := None)\<rparr>)"
        if "get_room w c = Some (ref, r)" for ref r
      proof -
        from that have "heap w ref = Some r" by (auto dest: get_room_SomeD)
        from inv_rooms_delete[OF cl[OF this, of "r\<lparr>roundTimer := None, hintTimers := []\<rparr>"], of c]
        show ?thesis by simp
      qed
      from ReapCb f Some False i0 show ?thesis
        by (auto simp: fire_def Let_def clearTimers_eq rp split: option.splits if_splits)
    qed
  qed
qed

lemma inv_step:
  assumes "inv w" "step now inp w = Some (w', evs)"
  shows "inv w'"
proof (cases inp)
  case (CreateRoom rs)
  with assms inv_create_room[OF assms(1), of rs] show ?thesis by (auto simp: step_def)
next
  case (Upload c pz)
  with assms inv_upload[OF assms(1), of c pz] show ?thesis by (auto simp: step_def)
next
  case (HostJoin sid c sess)
  with assms inv_host_join[OF assms(1), of sid c sess] show ?thesis by (auto simp: step_def)
next
  case (JoinRoom sid c nm sess u1 u2)
  with assms show ?thesis by (auto simp: step_def intro: inv_join_room)
next
  case (StartGame sid c rounds tpr)
  with assms show ?thesis by (auto simp: step_def intro: inv_start_game)
next
  case (SubmitGuess sid c g)
  with assms show ?thesis by (auto simp: step_def intro: inv_submit_guess)
next
  case (NextRound sid c)
  with assms show ?thesis by (auto simp: step_def intro: inv_next_round)
next
  case (Disconnect sid)
  with assms inv_disconnect[OF assms(1), of now sid] show ?thesis by (auto simp: step_def)
next
  case (Fire t)
  with assms show ?thesis by (auto simp: step_def intro: inv_fire)
qed

lemma reachable_inv: "reachable w \<Longrightarrow> inv w"
  by (induction rule: reachable.induct) (auto intro: inv_init inv_step)

lemma sched_le_refl [simp]: "sched_le s s"
  by (simp add: sched_le_def)












text \<open>The timers a room tracks are not pending after its timers are cleared.\<close>

lemma inv_pending_tracked:
  assumes "inv w" "heap w ref = Some room" "pending (sched w) t = Some tm"
    "cb_room (callback tm) = Some ref"
  shows "tracks room t \<and> t < nextTimer (sched w)"
  using assms unfolding inv_def inv_timers_def by (metis option.inject)

lemma cancelled_startRound:
  assumes "inv w" "heap w ref = Some room0" "roundTimer room = roundTimer room0"
    "hintTimers room = hintTimers room0"
    "startRound ref now room (sched w) = Some (room', s', evs)"
    "pending (sched w) t = Some tm" "cb_room (callback tm) = Some ref"
  shows "pending s' t = None"
proof -
  from inv_pending_tracked[OF assms(1,2,6,7)] have "tracks room0 t" "t < nextTimer (sched w)"
    by simp_all
  then have "tracks room t" "t < nextTimer (sched w)" using assms(3,4) by (simp_all add: tracks_def)
  with startRound_SomeD(3)[OF assms(5), of t] show ?thesis by (simp add: cleared_def)
qed

lemma cancelled_endRound:
  assumes "inv w" "heap w ref = Some room0" "roundTimer room = roundTimer room0"
    "hintTimers room = hintTimers room0"
    "endRound ref now room (sched w) = Some (room', s', evs)"
    "pending (sched w) t = Some tm" "cb_room (callback tm) = Some ref"
  shows "pending s' t = None"
proof -
  from inv_pending_tracked[OF assms(1,2,6,7)] have "tracks room0 t" "t < nextTimer (sched w)"
    by simp_all
  then have "tracks room t" "t \<noteq> nextTimer (sched w)" using assms(3,4) by (simp_all add: tracks_def)
  with endRound_SomeD(3)[OF assms(5), of t] show ?thesis by (simp add: cleared_def)
qed

lemma cancelled_cleared:
  assumes "inv w" "heap w ref = Some room"
    "pending (sched w) t = Some tm" "cb_room (callback tm) = Some ref"
  shows "cleared room (sched w) t = None"
  using inv_pending_tracked[OF assms] by (simp add: cleared_def)

lemma get_room_of: "ref_of w c = Some ref \<Longrightarrow> get_room w c = Some (ref, room_of w c)"
  by (auto simp: ref_of_def room_of_def)






lemma pending_fold_clearTimeout:
  "pending (fold clearTimeout ts s) = (\<lambda>t. if t \<in> set ts then None else pending s t)"
  by (induction ts arbitrary: s) (auto simp: clearTimeout_def fun_eq_iff)

lemma nextTimer_fold_clearTimeout: "nextTimer (fold clearTimeout ts s) = nextTimer s"
  by (induction ts arbitrary: s) (auto simp: clearTimeout_def)

lemma clearTimers_room: "fst (clearTimers room s) = room\<lparr>roundTimer := None, hintTimers := []\<rparr>"
  by (simp add: clearTimers_def Let_def)

lemma clearTimers_pending:
  "pending (snd (clearTimers room s)) =
     (\<lambda>t. if roundTimer room = Some t \<or> t \<in> set (hintTimers room) then None else pending s t)"
  by (auto simp: clearTimers_def Let_def pending_fold_clearTimeout clearTimeout_def fun_eq_iff
           split: option.splits)

lemma clearTimers_nextTimer: "nextTimer (snd (clearTimers room s)) = nextTimer s"
  by (simp add: clearTimers_def Let_def nextTimer_fold_clearTimeout clearTimeout_def
           split: option.splits)

lemma endRound_Some:
  assumes "endRound ref now room s = Some (room', s', evs)"
  shows "room' = room\<lparr>roundTimer := Some (nextTimer s), hintTimers := []\<rparr>"
  using assms
  by (auto simp: endRound_def Let_def setTimeout_def split_beta clearTimers_room
      clearTimers_nextTimer split: if_splits)

lemma endRound_defined:
  "currentRound room < length (puzzles room) \<Longrightarrow> \<exists>r. endRound ref now room s = Some r"
  by (simp add: endRound_def Let_def split_beta)

lemma get_room_put_room:
  "get_room w c = Some (ref, room) \<Longrightarrow>
   get_room ((put_room ref room' w)\<lparr>sched := s\<rparr>) c = Some (ref, room')"
  "get_room w c = Some (ref, room) \<Longrightarrow> get_room (put_room ref room' w) c = Some (ref, room')"
  by (auto simp: get_room_def split: option.splits)

text \<open>The path of submit-guess on which points are awarded.\<close>

lemma submit_guess_scores:
  assumes "get_room w roomCode = Some (ref, room)" "state room = Playing"
    and "s_playerId (sockets w sid) = Some playerId"
    and "map_of (players room) playerId = Some player"
    and "playerId \<notin> roundAnswered room"
    and "currentRound room < length (puzzles room)"
    and "match (checkGuess guess (answer (puzzles room ! currentRound room))) \<noteq> Wrong"
  shows "\<exists>rt ht s2 evs.
     submit_guess now sid roomCode guess w =
       Some ((put_room ref
               ((scored_room playerId player
                   (calcScore (remaining_time now room) (timePerRound room)
                      (match (checkGuess guess (answer (puzzles room ! currentRound room))))
                      (similarity (checkGuess guess (answer (puzzles room ! currentRound room)))))
                   room)\<lparr>roundTimer := rt, hintTimers := ht\<rparr>) w)\<lparr>sched := s2\<rparr>, evs)"
proof -
  let ?res = "checkGuess guess (answer (puzzles room ! currentRound room))"
  let ?pts = "calcScore (remaining_time now room) (timePerRound room) (match ?res) (similarity ?res)"
  let ?room1 = "scored_room playerId player ?pts room"
  show ?thesis
  proof (cases "list_all (\<lambda>p. p_id p \<in> roundAnswered ?room1) (filter online (player_values ?room1))")
    case True
    have "currentRound ?room1 < length (puzzles ?room1)"
      using assms(6) by (simp add: scored_room_def)
    then obtain room2 s2 evs2 where er: "endRound ref now ?room1 (sched w) = Some (room2, s2, evs2)"
      using endRound_defined[of ?room1 ref now "sched w"] by (metis prod_cases3)
    from endRound_Some[OF er]
    have r2: "room2 = ?room1\<lparr>roundTimer := Some (nextTimer (sched w)), hintTimers := []\<rparr>" .
    obtain evs where "submit_guess now sid roomCode guess w =
        Some ((put_room ref room2 w)\<lparr>sched := s2\<rparr>, evs)"
      using assms True er by (simp add: submit_guess_def Let_def)
    then show ?thesis unfolding r2 by blast
  next
    case False
    obtain evs where sg: "submit_guess now sid roomCode guess w = Some (put_room ref ?room1 w, evs)"
      using assms False by (simp add: submit_guess_def Let_def)
    have "put_room ref ?room1 w =
            (put_room ref (?room1\<lparr>roundTimer := roundTimer ?room1, hintTimers := hintTimers ?room1\<rparr>) w)
              \<lparr>sched := sched w\<rparr>"
      by (simp add: put_room_def)
    with sg show ?thesis by metis
  qed
qed

text \<open>Every other path leaves the state as it is.\<close>

lemma submit_guess_unchanged:
  assumes "submit_guess now sid roomCode guess w = Some (w1, evs)"
    and "\<not> (\<exists>ref room playerId player. get_room w roomCode = Some (ref, room) \<and> state room = Playing
          \<and> s_playerId (sockets w sid) = Some playerId
          \<and> map_of (players room) playerId = Some player
          \<and> playerId \<notin> roundAnswered room
          \<and> currentRound room < length (puzzles room)
          \<and> match (checkGuess guess (answer (puzzles room ! currentRound room))) \<noteq> Wrong)"
  shows "w1 = w"
  using assms
  by (auto simp: submit_guess_def Let_def split: option.splits if_splits prod.splits)

lemma map_of_player_of:
  "map_of (players room) playerId \<noteq> None \<Longrightarrow>
   map_of (players room) playerId = Some (player_of room playerId)"
  by (auto simp: player_of_def)

lemma run_append:
  "run (tr @ tr') w =
     (case run tr w of None \<Rightarrow> None
      | Some (w1, evs1) \<Rightarrow>
          (case run tr' w1 of None \<Rightarrow> None | Some (w2, evs2) \<Rightarrow> Some (w2, evs1 @ evs2)))"
  by (induction tr arbitrary: w) (auto split: option.splits)

lemma step_world_after:
  assumes "events_of (tr @ [(now, inp)]) \<noteq> None"
  shows "\<exists>evs. step now inp (world_after tr) = Some (world_after (tr @ [(now, inp)]), evs)"
  using assms
  by (auto simp: events_of_def world_after_def run_append split: option.splits)

lemma reachable_run:
  "reachable w \<Longrightarrow> run tr w = Some (w', evs) \<Longrightarrow> reachable w'"
proof (induction tr arbitrary: w evs)
  case Nil
  then show ?case by simp
next
  case (Cons a tr)
  obtain now inp where a: "a = (now, inp)" by (cases a)
  from Cons.prems(2) obtain w1 evs1 evs2 where
    s: "step now inp w = Some (w1, evs1)" and r: "run tr w1 = Some (w', evs2)"
    unfolding a by (auto split: option.splits)
  from reachable.step[OF Cons.prems(1) s] have "reachable w1" .
  from Cons.IH[OF this r] show ?case .
qed

lemma reachable_world_after: "reachable (world_after tr)"
proof (cases "run tr init_world")
  case None
  then show ?thesis by (simp add: world_after_def reachable.init)
next
  case (Some a)
  obtain w evs where a: "a = (w, evs)" by (cases a)
  from reachable_run[OF reachable.init, of tr w evs] Some a show ?thesis
    by (simp add: world_after_def)
qed

lemma submit_guess_dropped:
  assumes "get_room w roomCode = Some (ref, room)" and "state room = Playing"
    and "s_playerId (sockets w sid) = Some playerId" and "playerId \<in> roundAnswered room"
  shows "submit_guess now sid roomCode guess w = Some (w, [])"
  using assms by (simp add: submit_guess_def split: option.splits)

lemma scored_room_fields [simp]:
  "state (scored_room k p n room) = state room"
  "puzzles (scored_room k p n room) = puzzles room"
  "currentRound (scored_room k p n room) = currentRound room"
  "roundAnswered (scored_room k p n room) = insert k (roundAnswered room)"
  "map_of (players (scored_room k p n room)) k = Some (p\<lparr>score := score p + n, guessedThisRound := True\<rparr>)"
  "roundTimer (scored_room k p n room) = roundTimer room"
  "hintTimers (scored_room k p n room) = hintTimers room"
  by (simp_all add: scored_room_def update_conv')

text \<open>
  Claim C3. In a room that is playing, a guess from a player whose id is already in
  \<open>roundAnswered\<close> is dropped: no event, no points, the whole state unchanged. A guess that
  changes the player's score records the player, so every later guess of that player in
  the round is dropped: the score changes at most once per round.
\<close>

theorem submit_guess_duplicate_dropped:
  assumes "get_room w roomCode = Some (ref, room)" and "state room = Playing"
    and "s_playerId (sockets w sid) = Some playerId"
  shows "(playerId \<in> roundAnswered room \<longrightarrow>
            submit_guess now sid roomCode guess w = Some (w, []))
       \<and> (\<forall>w1 evs. submit_guess now sid roomCode guess w = Some (w1, evs) \<and>
              score_of w1 roomCode playerId \<noteq> score_of w roomCode playerId
            \<longrightarrow> (\<forall>now' guess'. submit_guess now' sid roomCode guess' w1 = Some (w1, [])))"
proof (intro conjI allI impI)
  assume "playerId \<in> roundAnswered room"
  with assms show "submit_guess now sid roomCode guess w = Some (w, [])"
    by (rule submit_guess_dropped)
next
  fix w1 evs now' guess'
  assume a: "submit_guess now sid roomCode guess w = Some (w1, evs) \<and>
      score_of w1 roomCode playerId \<noteq> score_of w roomCode playerId"
  then have sg: "submit_guess now sid roomCode guess w = Some (w1, evs)"
    and ch: "score_of w1 roomCode playerId \<noteq> score_of w roomCode playerId" by simp_all
  from ch have "w1 \<noteq> w" by auto
  with submit_guess_unchanged[OF sg]
  have "\<exists>ref room playerId player. get_room w roomCode = Some (ref, room) \<and> state room = Playing
          \<and> s_playerId (sockets w sid) = Some playerId
          \<and> map_of (players room) playerId = Some player
          \<and> playerId \<notin> roundAnswered room
          \<and> currentRound room < length (puzzles room)
          \<and> match (checkGuess guess (answer (puzzles room ! currentRound room))) \<noteq> Wrong"
    by blast
  with assms(1,3) obtain player where
    p: "map_of (players room) playerId = Some player" "playerId \<notin> roundAnswered room"
       "currentRound room < length (puzzles room)"
       "match (checkGuess guess (answer (puzzles room ! currentRound room))) \<noteq> Wrong"
    by auto
  from submit_guess_scores[OF assms p, of now] sg obtain rt ht s2 pts where
    w1: "w1 = (put_room ref ((scored_room playerId player pts room)\<lparr>roundTimer := rt, hintTimers := ht\<rparr>) w)\<lparr>sched := s2\<rparr>"
    by auto
  have g: "get_room w1 roomCode =
      Some (ref, (scored_room playerId player pts room)\<lparr>roundTimer := rt, hintTimers := ht\<rparr>)"
    unfolding w1 using assms(1) by (rule get_room_put_room)
  have st: "state ((scored_room playerId player pts room)\<lparr>roundTimer := rt, hintTimers := ht\<rparr>) = Playing"
    using assms(2) by simp
  have sk: "s_playerId (sockets w1 sid) = Some playerId"
    using assms(3) by (simp add: w1)
  have an: "playerId \<in> roundAnswered ((scored_room playerId player pts room)\<lparr>roundTimer := rt, hintTimers := ht\<rparr>)"
    by simp
  show "submit_guess now' sid roomCode guess' w1 = Some (w1, [])"
    by (rule submit_guess_dropped[OF g st sk an])
qed

theorem submit_guess_duplicate_dropped_witness:
  "state (room_of (world_after game_started) ''AAAAAA'') = Playing
   \<and> s_playerId (sockets (world_after game_started) ''s1'') = Some ''p1''
   \<and> score_of (world_after game_started) ''AAAAAA'' ''p1'' = Some 0
   \<and> score_of (world_after (game_started @ [(10000, SubmitGuess ''s1'' ''AAAAAA'' ''eiffel tower'')]))
        ''AAAAAA'' ''p1'' = Some 700
   \<and> (\<forall>now' guess'.
        submit_guess now' ''s1'' ''AAAAAA'' guess'
          (world_after (game_started @ [(10000, SubmitGuess ''s1'' ''AAAAAA'' ''eiffel tower'')]))
        = Some (world_after (game_started @ [(10000, SubmitGuess ''s1'' ''AAAAAA'' ''eiffel tower'')]), []))"
proof -
  let ?w = "world_after game_started"
  let ?w1 = "world_after (game_started @ [(10000, SubmitGuess ''s1'' ''AAAAAA'' ''eiffel tower'')])"
  have r: "ref_of ?w ''AAAAAA'' = Some 0" by code_simp
  have st: "state (room_of ?w ''AAAAAA'') = Playing" by code_simp
  have sk: "s_playerId (sockets ?w ''s1'') = Some ''p1''" by code_simp
  have s0: "score_of ?w ''AAAAAA'' ''p1'' = Some 0" by code_simp
  have s1: "score_of ?w1 ''AAAAAA'' ''p1'' = Some 700" by code_simp
  have "events_of (game_started @ [(10000, SubmitGuess ''s1'' ''AAAAAA'' ''eiffel tower'')]) \<noteq> None"
    by code_simp
  from step_world_after[OF this] obtain evs where
    sg: "submit_guess 10000 ''s1'' ''AAAAAA'' ''eiffel tower'' ?w = Some (?w1, evs)"
    by (auto simp: step_def)
  from submit_guess_duplicate_dropped[OF get_room_of[OF r] st sk, of 10000 "''eiffel tower''"]
    sg s0 s1
  have "\<forall>now' guess'. submit_guess now' ''s1'' ''AAAAAA'' guess' ?w1 = Some (?w1, [])"
    by simp
  with st sk s0 s1 show ?thesis by simp
qed



text \<open>
  Claim C10. A guess classified as wrong emits only the guess-result notification to the
  submitter and leaves the whole state unchanged, so any number of wrong guesses can
  follow one another.
\<close>

theorem wrong_guess_frame:
  assumes "get_room w roomCode = Some (ref, room)" and "state room = Playing"
    and "s_playerId (sockets w sid) = Some playerId"
    and "map_of (players room) playerId = Some player"
    and "playerId \<notin> roundAnswered room"
    and "currentRound room < length (puzzles room)"
  shows "(match (checkGuess guess (answer (puzzles room ! currentRound room))) = Wrong \<longrightarrow>
            submit_guess now sid roomCode guess w = Some (w, [(ToSocket sid, GuessResultWrong guess)]))
       \<and> ((\<forall>g \<in> set (map snd tgs).
              match (checkGuess g (answer (puzzles room ! currentRound room))) = Wrong) \<longrightarrow>
            run (map (\<lambda>(t, g). (t, SubmitGuess sid roomCode g)) tgs) w =
              Some (w, map (\<lambda>(t, g). (ToSocket sid, GuessResultWrong g)) tgs))"
proof -
  have one: "submit_guess t sid roomCode g w = Some (w, [(ToSocket sid, GuessResultWrong g)])"
    if "match (checkGuess g (answer (puzzles room ! currentRound room))) = Wrong" for t g
    using assms that by (simp add: submit_guess_def Let_def)
  have many: "run (map (\<lambda>(t, g). (t, SubmitGuess sid roomCode g)) tgs) w =
              Some (w, map (\<lambda>(t, g). (ToSocket sid, GuessResultWrong g)) tgs)"
    if "\<forall>g \<in> set (map snd tgs).
          match (checkGuess g (answer (puzzles room ! currentRound room))) = Wrong"
    using that by (induction tgs) (auto simp: step_def one)
  from one many show ?thesis by blast
qed

theorem wrong_guess_frame_witness:
  "state (room_of (world_after game_started) ''AAAAAA'') = Playing
   \<and> ''p1'' \<notin> roundAnswered (room_of (world_after game_started) ''AAAAAA'')
   \<and> match (checkGuess ''pizza'' ''The Eiffel Tower'') = Wrong
   \<and> match (checkGuess ''banana'' ''The Eiffel Tower'') = Wrong
   \<and> submit_guess 10000 ''s1'' ''AAAAAA'' ''pizza'' (world_after game_started)
       = Some (world_after game_started, [(ToSocket ''s1'', GuessResultWrong ''pizza'')])
   \<and> run [(10000, SubmitGuess ''s1'' ''AAAAAA'' ''pizza''),
           (11000, SubmitGuess ''s1'' ''AAAAAA'' ''banana'')] (world_after game_started)
       = Some (world_after game_started,
               [(ToSocket ''s1'', GuessResultWrong ''pizza''),
                (ToSocket ''s1'', GuessResultWrong ''banana'')])"
proof -
  let ?w = "world_after game_started"
  let ?room = "room_of ?w ''AAAAAA''"
  have r: "ref_of ?w ''AAAAAA'' = Some 0" by code_simp
  have st: "state ?room = Playing" by code_simp
  have sk: "s_playerId (sockets ?w ''s1'') = Some ''p1''" by code_simp
  have "map_of (players ?room) ''p1'' \<noteq> None" by code_simp
  then have pl: "map_of (players ?room) ''p1'' = Some (player_of ?room ''p1'')"
    by (rule map_of_player_of)
  have na: "''p1'' \<notin> roundAnswered ?room" by code_simp
  have cr: "currentRound ?room < length (puzzles ?room)" by code_simp
  have an: "answer (puzzles ?room ! currentRound ?room) = ''The Eiffel Tower''" by code_simp
  have m1: "match (checkGuess ''pizza'' ''The Eiffel Tower'') = Wrong" by code_simp
  have m2: "match (checkGuess ''banana'' ''The Eiffel Tower'') = Wrong" by code_simp
  from wrong_guess_frame[OF get_room_of[OF r] st sk pl na cr,
      of "''pizza''" 10000 "[(10000, ''pizza''), (11000, ''banana'')]"]
    m1 m2 an st na
  show ?thesis by simp
qed

text \<open>
  Claim C4, as amended. In every reachable state \<open>roundAnswered\<close> holds only ids of
  players of the room, online or not. When a scoring guess leaves every online player
  in \<open>roundAnswered\<close>, the submit-guess handler ends the round at once, whatever time
  remains: it emits round-end and cancels the timers the room keeps, so the scheduled
  round timer does not fire.
\<close>

theorem answered_players_and_early_end:
  assumes "reachable w" and "get_room w roomCode = Some (ref, room)"
  shows "roundAnswered room \<subseteq> fst ` set (players room)
       \<and> (state room = Playing \<and> s_playerId (sockets w sid) = Some playerId
          \<and> map_of (players room) playerId = Some player
          \<and> playerId \<notin> roundAnswered room
          \<and> currentRound room < length (puzzles room)
          \<and> match (checkGuess guess (answer (puzzles room ! currentRound room))) \<noteq> Wrong
          \<and> (\<forall>(k, p) \<in> set (players room). online p \<longrightarrow> k = playerId \<or> k \<in> roundAnswered room)
          \<longrightarrow> (\<exists>w1 evs lb.
                 submit_guess now sid roomCode guess w = Some (w1, evs)
               \<and> last evs = (ToRoom (code room),
                    RoundEnd (answer (puzzles room ! currentRound room)) (currentRound room + 1)
                      (totalRounds room) lb (int (currentRound room) \<ge> totalRounds room - 1))
               \<and> (\<forall>t. tracks room t \<longrightarrow> pending (sched w1) t = None)))"
proof (intro conjI impI)
  from reachable_inv[OF assms(1)] have i: "inv w" .
  from assms(2) have h: "heap w ref = Some room" by (auto dest: get_room_SomeD)
  from inv_answeredD[OF i h] have ok: "room_ok room" .
  then show "roundAnswered room \<subseteq> fst ` set (players room)" by (simp add: room_ok_def)
  assume a: "state room = Playing \<and> s_playerId (sockets w sid) = Some playerId
          \<and> map_of (players room) playerId = Some player
          \<and> playerId \<notin> roundAnswered room
          \<and> currentRound room < length (puzzles room)
          \<and> match (checkGuess guess (answer (puzzles room ! currentRound room))) \<noteq> Wrong
          \<and> (\<forall>(k, p) \<in> set (players room). online p \<longrightarrow> k = playerId \<or> k \<in> roundAnswered room)"
  let ?res = "checkGuess guess (answer (puzzles room ! currentRound room))"
  let ?n = "calcScore (remaining_time now room) (timePerRound room) (match ?res) (similarity ?res)"
  let ?room1 = "scored_room playerId player ?n room"
  from ok have ids: "ids_ok (players room)" by (simp add: room_ok_def)
  from a have pl: "map_of (players room) playerId = Some player" by simp
  from ids_ok_map_of[OF ids pl] have pid: "p_id player = playerId" .
  have all: "list_all (\<lambda>p. p_id p \<in> roundAnswered ?room1) (filter online (player_values ?room1))"
  proof -
    have "p_id p \<in> insert playerId (roundAnswered room)"
      if "(k, p) \<in> set (players ?room1)" "online p" for k p
    proof -
      from that(1) set_update_subset[of playerId "player\<lparr>score := score player + ?n, guessedThisRound := True\<rparr>" "players room"]
      have "(k, p) = (playerId, player\<lparr>score := score player + ?n, guessedThisRound := True\<rparr>)
            \<or> (k, p) \<in> set (players room)"
        by (auto simp: scored_room_def)
      then show ?thesis
      proof
        assume "(k, p) = (playerId, player\<lparr>score := score player + ?n, guessedThisRound := True\<rparr>)"
        with pid show ?thesis by auto
      next
        assume m: "(k, p) \<in> set (players room)"
        with ids have "p_id p = k" by (auto simp: ids_ok_def)
        moreover from a m that(2) have "k = playerId \<or> k \<in> roundAnswered room" by auto
        ultimately show ?thesis by auto
      qed
    qed
    then have "\<forall>kp \<in> set (players ?room1). online (snd kp) \<longrightarrow>
                 p_id (snd kp) \<in> insert playerId (roundAnswered room)"
      by (metis prod.collapse)
    moreover have "roundAnswered ?room1 = insert playerId (roundAnswered room)"
      by (simp add: scored_room_def)
    ultimately show ?thesis
      unfolding list_all_iff player_values_def by auto
  qed
  have "currentRound ?room1 < length (puzzles ?room1)" using a by simp
  from endRound_defined[OF this, of ref now "sched w"]
  obtain room2 s2 evs2 where er: "endRound ref now ?room1 (sched w) = Some (room2, s2, evs2)"
    by (metis prod_cases3)
  have evs2: "evs2 = [(ToRoom (code room),
                    RoundEnd (answer (puzzles room ! currentRound room)) (currentRound room + 1)
                      (totalRounds room) (getLeaderboard (fst (clearTimers ?room1 (sched w))))
                      (int (currentRound room) \<ge> totalRounds room - 1))]"
    using er a by (auto simp: endRound_def Let_def split_beta scored_room_def split: if_splits)
  obtain evs where sg: "submit_guess now sid roomCode guess w = Some ((put_room ref room2 w)\<lparr>sched := s2\<rparr>, evs @ evs2)"
    using assms(2) a all er by (simp add: submit_guess_def Let_def)
  have canc: "pending s2 t = None" if "tracks room t" for t
  proof -
    from i h that have "t < nextTimer (sched w)"
      by (auto simp: inv_def inv_timers_def)
    moreover from that have "tracks ?room1 t" by (simp add: tracks_def)
    ultimately show ?thesis
      using endRound_SomeD(3)[OF er, of t] by (simp add: cleared_def)
  qed
  show "\<exists>w1 evs lb.
                 submit_guess now sid roomCode guess w = Some (w1, evs)
               \<and> last evs = (ToRoom (code room),
                    RoundEnd (answer (puzzles room ! currentRound room)) (currentRound room + 1)
                      (totalRounds room) lb (int (currentRound room) \<ge> totalRounds room - 1))
               \<and> (\<forall>t. tracks room t \<longrightarrow> pending (sched w1) t = None)"
    using sg canc unfolding evs2
    by (intro exI[of _ "(put_room ref room2 w)\<lparr>sched := s2\<rparr>"] exI[of _ "evs @ evs2"]
        exI[of _ "getLeaderboard (fst (clearTimers ?room1 (sched w)))"])
       (simp add: evs2)
qed

theorem answered_players_and_early_end_witness:
  "roundAnswered (room_of (world_after (game_started @ [(10000, SubmitGuess ''s1'' ''AAAAAA'' ''eiffel tower'')])) ''AAAAAA'')
     \<subseteq> fst ` set (players (room_of (world_after (game_started @ [(10000, SubmitGuess ''s1'' ''AAAAAA'' ''eiffel tower'')])) ''AAAAAA''))
   \<and> (\<exists>w1 evs lb.
         submit_guess 12000 ''s2'' ''AAAAAA'' ''eiffel tower''
           (world_after (game_started @ [(10000, SubmitGuess ''s1'' ''AAAAAA'' ''eiffel tower'')])) = Some (w1, evs)
       \<and> last evs = (ToRoom ''AAAAAA'', RoundEnd ''The Eiffel Tower'' 1 2 lb False)
       \<and> pending (sched w1) 2 = None)"
proof -
  let ?w = "world_after (game_started @ [(10000, SubmitGuess ''s1'' ''AAAAAA'' ''eiffel tower'')])"
  let ?room = "room_of ?w ''AAAAAA''"
  have r: "ref_of ?w ''AAAAAA'' = Some 0" by code_simp
  have st: "state ?room = Playing" by code_simp
  have sk: "s_playerId (sockets ?w ''s2'') = Some ''p2''" by code_simp
  have "map_of (players ?room) ''p2'' \<noteq> None" by code_simp
  then have pl: "map_of (players ?room) ''p2'' = Some (player_of ?room ''p2'')"
    by (rule map_of_player_of)
  have na: "''p2'' \<notin> roundAnswered ?room" by code_simp
  have cr: "currentRound ?room < length (puzzles ?room)" by code_simp
  have m: "match (checkGuess ''eiffel tower'' (answer (puzzles ?room ! currentRound ?room))) \<noteq> Wrong"
    by code_simp
  have al: "\<forall>(k, p) \<in> set (players ?room). online p \<longrightarrow> k = ''p2'' \<or> k \<in> roundAnswered ?room"
    by code_simp
  have an: "answer (puzzles ?room ! 0) = ''The Eiffel Tower''" by code_simp
  have cn: "currentRound ?room = 0" by code_simp
  have tot: "totalRounds ?room = 2" by code_simp
  have cd: "code ?room = ''AAAAAA''" by code_simp
  have tr: "tracks ?room 2" by code_simp
  note th = answered_players_and_early_end[OF reachable_world_after get_room_of[OF r],
      of "''s2''" "''p2''" "player_of ?room ''p2''" "''eiffel tower''" 12000]
  from th have sub: "roundAnswered ?room \<subseteq> fst ` set (players ?room)"
    by (rule conjunct1)
  from th have imp: "state ?room = Playing \<and> s_playerId (sockets ?w ''s2'') = Some ''p2''
          \<and> map_of (players ?room) ''p2'' = Some (player_of ?room ''p2'')
          \<and> ''p2'' \<notin> roundAnswered ?room
          \<and> currentRound ?room < length (puzzles ?room)
          \<and> match (checkGuess ''eiffel tower'' (answer (puzzles ?room ! currentRound ?room))) \<noteq> Wrong
          \<and> (\<forall>(k, p) \<in> set (players ?room). online p \<longrightarrow> k = ''p2'' \<or> k \<in> roundAnswered ?room)
          \<longrightarrow> (\<exists>w1 evs lb.
                 submit_guess 12000 ''s2'' ''AAAAAA'' ''eiffel tower'' ?w = Some (w1, evs)
               \<and> last evs = (ToRoom (code ?room),
                    RoundEnd (answer (puzzles ?room ! currentRound ?room)) (currentRound ?room + 1)
                      (totalRounds ?room) lb (int (currentRound ?room) \<ge> totalRounds ?room - 1))
               \<and> (\<forall>t. tracks ?room t \<longrightarrow> pending (sched w1) t = None))"
    by (rule conjunct2)
  from st sk pl na cr m al
  have hyp: "state ?room = Playing \<and> s_playerId (sockets ?w ''s2'') = Some ''p2''
          \<and> map_of (players ?room) ''p2'' = Some (player_of ?room ''p2'')
          \<and> ''p2'' \<notin> roundAnswered ?room
          \<and> currentRound ?room < length (puzzles ?room)
          \<and> match (checkGuess ''eiffel tower'' (answer (puzzles ?room ! currentRound ?room))) \<noteq> Wrong
          \<and> (\<forall>(k, p) \<in> set (players ?room). online p \<longrightarrow> k = ''p2'' \<or> k \<in> roundAnswered ?room)"
    by (intro conjI)
  from mp[OF imp hyp] obtain w1 evs lb where
    sg: "submit_guess 12000 ''s2'' ''AAAAAA'' ''eiffel tower'' ?w = Some (w1, evs)"
    and le: "last evs = (ToRoom (code ?room),
                    RoundEnd (answer (puzzles ?room ! currentRound ?room)) (currentRound ?room + 1)
                      (totalRounds ?room) lb (int (currentRound ?room) \<ge> totalRounds ?room - 1))"
    and ca: "\<forall>t. tracks ?room t \<longrightarrow> pending (sched w1) t = None"
    by (elim exE conjE)
  from le have le': "last evs = (ToRoom ''AAAAAA'', RoundEnd ''The Eiffel Tower'' 1 2 lb False)"
    unfolding cn tot cd an by simp
  from ca tr have p: "pending (sched w1) 2 = None" by (elim allE impE)
  from sg le' p have "\<exists>w1 evs lb.
         submit_guess 12000 ''s2'' ''AAAAAA'' ''eiffel tower'' ?w = Some (w1, evs)
       \<and> last evs = (ToRoom ''AAAAAA'', RoundEnd ''The Eiffel Tower'' 1 2 lb False)
       \<and> pending (sched w1) 2 = None"
    by (intro exI conjI)
  with sub show ?thesis by (intro conjI)
qed

theorem answered_offline_counterexample:
  "state (room_of (world_after (game_started @ [(10000, SubmitGuess ''s1'' ''AAAAAA'' ''eiffel tower''),
       (11000, Disconnect ''s1'')])) ''AAAAAA'') = Playing
   \<and> roundAnswered (room_of (world_after (game_started @ [(10000, SubmitGuess ''s1'' ''AAAAAA'' ''eiffel tower''),
       (11000, Disconnect ''s1'')])) ''AAAAAA'') = {''p1''}
   \<and> online_ids (room_of (world_after (game_started @ [(10000, SubmitGuess ''s1'' ''AAAAAA'' ''eiffel tower''),
       (11000, Disconnect ''s1'')])) ''AAAAAA'') = [''p2'']
   \<and> state (room_of (world_after (game_started @ [(10000, SubmitGuess ''s2'' ''AAAAAA'' ''eiffel tower''),
       (11000, Disconnect ''s1'')])) ''AAAAAA'') = Playing
   \<and> roundAnswered (room_of (world_after (game_started @ [(10000, SubmitGuess ''s2'' ''AAAAAA'' ''eiffel tower''),
       (11000, Disconnect ''s1'')])) ''AAAAAA'') = {''p2''}
   \<and> online_ids (room_of (world_after (game_started @ [(10000, SubmitGuess ''s2'' ''AAAAAA'' ''eiffel tower''),
       (11000, Disconnect ''s1'')])) ''AAAAAA'') = [''p2'']
   \<and> map_option round_ends (events_of (game_started @ [(10000, SubmitGuess ''s2'' ''AAAAAA'' ''eiffel tower''),
       (11000, Disconnect ''s1'')])) = Some []
   \<and> map_option callback (pending (sched (world_after (game_started @ [(10000, SubmitGuess ''s2'' ''AAAAAA'' ''eiffel tower''),
       (11000, Disconnect ''s1'')]))) 2) = Some (RoundEndCb 0)"
  by code_simp




lemma generateRoomCode_chars:
  assumes "\<forall>r \<in> set rs. 0 \<le> r \<and> r < 1"
  shows "set (generateRoomCode rs) \<subseteq> set chars"
proof -
  have "chars ! nat \<lfloor>r * real (length chars)\<rfloor> \<in> set chars" if "0 \<le> r" "r < 1" for r :: real
  proof -
    have l: "length chars = 32" by (simp add: chars_def)
    from that have "\<lfloor>r * 32\<rfloor> < 32" by (simp add: floor_less_iff)
    moreover from that have "0 \<le> \<lfloor>r * 32\<rfloor>" by simp
    ultimately have "nat \<lfloor>r * 32\<rfloor> < 32" by linarith
    then show ?thesis unfolding l by (metis l nth_mem of_nat_numeral)
  qed
  with assms show ?thesis by (auto simp: generateRoomCode_def)
qed

text \<open>
  Claim C8, as amended. create-room takes the code that generateRoomCode draws (six
  characters of the alphabet of 32) and sets it in the registry without looking the code
  up first: afterwards the code names a new, empty room in state setup, with a reference
  that no room had before, and every other code names the room it named before. A live
  room that had the same code stays in memory, unchanged, but the registry no longer
  leads to it.
\<close>

theorem create_room_sets_code:
  assumes "reachable w" and "length rs = 6" and "\<forall>r \<in> set rs. 0 \<le> r \<and> r < 1"
  shows "length (generateRoomCode rs) = 6
       \<and> set (generateRoomCode rs) \<subseteq> set chars
       \<and> snd (create_room rs w) = [(ToHttp, RoomCreated (generateRoomCode rs))]
       \<and> get_room (fst (create_room rs w)) (generateRoomCode rs)
            = Some (nextRef w, new_room (generateRoomCode rs))
       \<and> (\<forall>c. c \<noteq> generateRoomCode rs \<longrightarrow> get_room (fst (create_room rs w)) c = get_room w c)
       \<and> (\<forall>c ref room. get_room w c = Some (ref, room) \<longrightarrow>
             ref \<noteq> nextRef w \<and> heap (fst (create_room rs w)) ref = Some room)"
proof -
  from reachable_inv[OF assms(1)] have r: "inv_refs w" by (simp add: inv_def)
  have fresh: "ref \<noteq> nextRef w" if "heap w ref = Some room" for ref room
    using r that by (fastforce simp: inv_refs_def)
  have 1: "length (generateRoomCode rs) = 6" using assms(2) by (simp add: generateRoomCode_def)
  have 2: "set (generateRoomCode rs) \<subseteq> set chars" using assms(3) by (rule generateRoomCode_chars)
  have 3: "snd (create_room rs w) = [(ToHttp, RoomCreated (generateRoomCode rs))]"
    by (simp add: create_room_def Let_def)
  have 4: "get_room (fst (create_room rs w)) (generateRoomCode rs)
            = Some (nextRef w, new_room (generateRoomCode rs))"
    by (simp add: create_room_def Let_def get_room_def)
  have 5: "get_room (fst (create_room rs w)) c = get_room w c" if "c \<noteq> generateRoomCode rs" for c
  proof (cases "rooms w c")
    case None
    with that show ?thesis by (simp add: create_room_def Let_def get_room_def)
  next
    case (Some ref)
    with r have "heap w ref \<noteq> None" unfolding inv_refs_def by blast
    then obtain room where h: "heap w ref = Some room" by blast
    from fresh[OF h] that Some h show ?thesis
      by (simp add: create_room_def Let_def get_room_def)
  qed
  have 6: "ref \<noteq> nextRef w \<and> heap (fst (create_room rs w)) ref = Some room"
    if "get_room w c = Some (ref, room)" for c ref room
  proof -
    from that have "heap w ref = Some room" by (auto dest: get_room_SomeD)
    with fresh[OF this] show ?thesis by (simp add: create_room_def Let_def)
  qed
  from 1 2 3 4 5 6 show ?thesis by (intro conjI allI impI) auto
qed

theorem create_room_sets_code_witness:
  "length (generateRoomCode [0, 0, 0, 0, 0, 0]) = 6
   \<and> generateRoomCode [0, 0, 0, 0, 0, 0] = ''AAAAAA''
   \<and> get_room (fst (create_room [0, 0, 0, 0, 0, 0] (world_after game_started))) ''AAAAAA''
        = Some (1, new_room ''AAAAAA'')
   \<and> get_room (fst (create_room [0, 0, 0, 0, 0, 0] (world_after game_started))) ''BBBBBB''
        = get_room (world_after game_started) ''BBBBBB''
   \<and> heap (fst (create_room [0, 0, 0, 0, 0, 0] (world_after game_started))) 0
        = Some (room_of (world_after game_started) ''AAAAAA'')"
proof -
  let ?w = "world_after game_started"
  let ?rs = "[0, 0, 0, 0, 0, 0] :: real list"
  have l: "length ?rs = 6" by simp
  have b: "\<forall>r \<in> set ?rs. 0 \<le> r \<and> r < 1" by simp
  have g: "generateRoomCode ?rs = ''AAAAAA''" by code_simp
  have n: "nextRef ?w = 1" by code_simp
  have r: "ref_of ?w ''AAAAAA'' = Some 0" by code_simp
  have ne: "''BBBBBB'' \<noteq> ''AAAAAA''" by simp
  note th = create_room_sets_code[OF reachable_world_after l b, of game_started, unfolded g n]
  from th have 1: "length ''AAAAAA'' = 6" by (elim conjE)
  from th have 4: "get_room (fst (create_room ?rs ?w)) ''AAAAAA'' = Some (1, new_room ''AAAAAA'')"
    by (elim conjE)
  from th have 5: "\<forall>c. c \<noteq> ''AAAAAA'' \<longrightarrow> get_room (fst (create_room ?rs ?w)) c = get_room ?w c"
    by (elim conjE)
  from th have 6: "\<forall>c ref room. get_room ?w c = Some (ref, room) \<longrightarrow>
             ref \<noteq> 1 \<and> heap (fst (create_room ?rs ?w)) ref = Some room"
    by (elim conjE)
  from 5 ne have e5: "get_room (fst (create_room ?rs ?w)) ''BBBBBB'' = get_room ?w ''BBBBBB''"
    by (elim allE impE)
  from 6 get_room_of[OF r]
  have e6: "heap (fst (create_room ?rs ?w)) 0 = Some (room_of ?w ''AAAAAA'')"
    by (elim allE impE conjE)
  from 1 g 4 e5 e6 show ?thesis unfolding g by (intro conjI)
qed

theorem create_room_replaces_counterexample:
  "ref_of (world_after game_started) ''AAAAAA'' = Some 0
   \<and> state (room_of (world_after game_started) ''AAAAAA'') = Playing
   \<and> map fst (players (room_of (world_after game_started) ''AAAAAA'')) = [''p1'', ''p2'']
   \<and> map_option last (events_of (game_started @ [(2000, CreateRoom [0, 0, 0, 0, 0, 0])]))
        = Some (ToHttp, RoomCreated ''AAAAAA'')
   \<and> ref_of (world_after (game_started @ [(2000, CreateRoom [0, 0, 0, 0, 0, 0])])) ''AAAAAA'' = Some 1
   \<and> state (room_of (world_after (game_started @ [(2000, CreateRoom [0, 0, 0, 0, 0, 0])])) ''AAAAAA'') = Setup
   \<and> players (room_of (world_after (game_started @ [(2000, CreateRoom [0, 0, 0, 0, 0, 0])])) ''AAAAAA'') = []
   \<and> score_of (world_after (game_started @ [(2000, CreateRoom [0, 0, 0, 0, 0, 0])])) ''AAAAAA'' ''p1'' = None"
  by code_simp

lemma map_of_update_players:
  "map_of (AList.update k v al) k' = (if k' = k then Some v else map_of al k')"
  by (simp add: update_conv')

lemma mark_offline_scores:
  "map_option score (map_of (players (fst (mark_offline c pid room))) k)
     = map_option score (map_of (players room) k)"
  by (auto simp: mark_offline_def Let_def map_of_update_players split: option.splits)

lemma transfer_host_players: "players (fst (transfer_host b room)) = players room"
  by (auto simp: transfer_host_def split: list.splits)

text \<open>The disconnect handler leaves every score of every room as it is.\<close>

lemma disconnect_keeps_scores:
  "score_of (fst (disconnect now sid w)) c k = score_of w c k"
proof (cases "s_roomCode (sockets w sid)")
  case None
  then show ?thesis by (simp add: disconnect_def)
next
  case (Some c')
  show ?thesis
  proof (cases "get_room w c'")
    case None
    with Some show ?thesis by (simp add: disconnect_def)
  next
    case (Some a)
    obtain ref room where a: "a = (ref, room)" by (cases a)
    let ?r2 = "fst (transfer_host (s_isHost (sockets w sid))
                 (fst (mark_offline c' (s_playerId (sockets w sid)) room)))"
    from Some a have h: "heap w ref = Some room" by (auto dest: get_room_SomeD)
    have sc: "map_option score (map_of (players ?r2) k) = map_option score (map_of (players room) k)"
      by (simp add: transfer_host_players mark_offline_scores)
    have "get_room (fst (disconnect now sid w)) c =
            (case rooms w c of None \<Rightarrow> None
             | Some r \<Rightarrow> if r = ref then Some (ref, ?r2) else get_room w c)"
      using Some a \<open>s_roomCode (sockets w sid) = Some c'\<close>
      by (auto simp: disconnect_def Let_def split_beta get_room_def split: option.splits)
    with h sc show ?thesis
      by (auto simp: score_of_def get_room_def split: option.splits)
  qed
qed




end
